theory Spec2Isabelle
  imports Main
begin

section \<open>The parts of Go's \<open>time\<close> package that package \<open>fiscal\<close> uses\<close>

text \<open>
  Package \<open>fiscal\<close> works on \<open>time.Time\<close> and \<open>time.Duration\<close> values. A
  \<open>Duration\<close> is a signed 64-bit count of nanoseconds. A \<open>Time\<close> is modelled as the
  integer count of nanoseconds since 0001-01-01 00:00:00 UTC, the instant Go's internal
  representation counts its seconds from; the instants a \<open>time.Time\<close> holds are those
  whose count of whole seconds fits 64 bits, and \<open>Add\<close> below never leaves them: the last
  one is 292277024627-12-06 15:30:07.999999999 UTC.

  Three things are left out. The instants are read in UTC, the location of the anchor (a
  date in another location would be read in its own calendar by \<open>Year()\<close>). The
  calendar of an instant is computed by the formulas of the library, which reach back to
  the year -292277022399; the model applies the same formulas to the instants before. Year numbers and indices, of Go's 64-bit
  type \<open>int\<close>, are integers without a bound; the program does no arithmetic on a year
  number, and an index grows by one per pass of a scan.
\<close>

type_synonym Duration = int
type_synonym Time = int

definition Nanosecond :: Duration where
  "Nanosecond = 1"

definition Hour :: Duration where
  "Hour = 3600000000000"

definition minDuration :: Duration where
  "minDuration = - (2 ^ 63)"

definition maxDuration :: Duration where
  "maxDuration = 2 ^ 63 - 1"

text \<open>Go's integer division and remainder truncate towards zero.\<close>

definition go_div :: "int \<Rightarrow> int \<Rightarrow> int" where
  "go_div a b = sgn a * sgn b * (\<bar>a\<bar> div \<bar>b\<bar>)"

definition go_rem :: "int \<Rightarrow> int \<Rightarrow> int" where
  "go_rem a b = a - b * go_div a b"

text \<open>
  \<open>t.Add(d)\<close>: a \<open>Time\<close> holds a signed 64-bit count of seconds since 0001-01-01 and
  the nanoseconds within the second. \<open>Add\<close> splits the duration into seconds and
  nanoseconds, carries between them, and hands the seconds to \<open>addSec\<close>, which stops at
  the largest and the smallest count of seconds where the sum does not fit.
\<close>

definition addSec :: "int \<Rightarrow> int \<Rightarrow> int" where
  "addSec ext d =
     (let sum = ext + d in
      if - (2 ^ 63) \<le> sum \<and> sum \<le> 2 ^ 63 - 1 then sum
      else if d > 0 then 2 ^ 63 - 1
      else - (2 ^ 63 - 1))"

definition Add :: "Time \<Rightarrow> Duration \<Rightarrow> Time" where
  "Add t d =
     (let dsec = go_div d 1000000000;
          nsec = t mod 1000000000 + go_rem d 1000000000;
          (dsec', nsec') =
             (if nsec \<ge> 1000000000 then (dsec + 1, nsec - 1000000000)
              else if nsec < 0 then (dsec - 1, nsec + 1000000000)
              else (dsec, nsec))
      in addSec (t div 1000000000) dsec' * 1000000000 + nsec')"

definition Before :: "Time \<Rightarrow> Time \<Rightarrow> bool" where
  "Before t u = (t < u)"

definition After :: "Time \<Rightarrow> Time \<Rightarrow> bool" where
  "After t u = (t > u)"

text \<open>\<open>t.Sub(u)\<close> saturates at the smallest and the largest \<open>Duration\<close>.\<close>

definition Sub :: "Time \<Rightarrow> Time \<Rightarrow> Duration" where
  "Sub t u =
     (if minDuration \<le> t - u \<and> t - u \<le> maxDuration then t - u
      else if Before t u then minDuration
      else maxDuration)"

text \<open>
  \<open>d.Round(m)\<close> rounds to the nearest multiple of \<open>m\<close>, halfway values away from
  zero, and saturates where the rounded value does not fit a \<open>Duration\<close>.
\<close>

definition Round :: "Duration \<Rightarrow> Duration \<Rightarrow> Duration" where
  "Round d m =
     (if m \<le> 0 then d
      else if d < 0 then
        (let r = - go_rem d m in
         if r + r < m then d + r
         else if minDuration \<le> d - m + r then d - m + r
         else minDuration)
      else
        (let r = go_rem d m in
         if r + r < m then d - r
         else if d + m - r \<le> maxDuration then d + m - r
         else maxDuration))"

text \<open>
  \<open>int(d.Hours() / 24)\<close>: \<open>Hours\<close> returns a floating-point number of hours, the
  division by 24 is a floating-point division, and the conversion to \<open>int\<close> truncates
  towards zero. On a \<open>Duration\<close> the rounding error of the two floating-point operations
  is below \<open>2\<^sup>-\<^sup>3\<^sup>0\<close> days, and a duration that is a whole number of hours is either a
  whole number of days, where both operations are exact, or at least one hour away from
  one (the two durations at which \<open>Round\<close> saturates are 11 minutes and more away from
  one); so on the result of \<open>Round(time.Hour)\<close> the program computes the truncated
  quotient by the length of a day.
\<close>

definition wholeDays :: "Duration \<Rightarrow> int" where
  "wholeDays d = go_div d (24 * Hour)"

text \<open>
  \<open>d.Hours() / 24 > 364\<close> is used on the length of a fiscal year only, which is one
  nanosecond less than 364 or 371 days. \<open>Hours\<close> computes
  \<open>float64(d / Hour) + float64(d % Hour) / 3.6e12\<close>; for these two durations that is
  8735 + 0.99999999999972\<dots> and 8903 + 0.99999999999972\<dots>, which round to the
  floating-point numbers 8736 and 8904 (neighbouring floating-point numbers are
  \<open>2\<^sup>-\<^sup>3\<^sup>9\<close> apart there). The comparison therefore is that of 364 with 371 in
  the one case and with 364 in the other, which is the outcome of the exact comparison
  of the duration with 364 days.
\<close>

definition moreThan364Days :: "Duration \<Rightarrow> bool" where
  "moreThan364Days d = (d > 364 * (24 * Hour))"

subsection \<open>The calendar: \<open>absDate\<close>, \<open>Date\<close>, \<open>Year()\<close> and \<open>Day()\<close>\<close>

definition daysPer400Years :: int where
  "daysPer400Years = 365 * 400 + 97"

definition daysPer100Years :: int where
  "daysPer100Years = 365 * 100 + 24"

definition daysPer4Years :: int where
  "daysPer4Years = 365 * 4 + 1"

definition isLeap :: "int \<Rightarrow> bool" where
  "isLeap year = (year mod 4 = 0 \<and> (year mod 100 \<noteq> 0 \<or> year mod 400 = 0))"

definition daysBefore :: "int list" where
  "daysBefore = [0, 31, 59, 90, 120, 151, 181, 212, 243, 273, 304, 334, 365]"

text \<open>
  The year and the day within the year (from 0) of a day counted from 0001-01-01:
  whole cycles of 400, 100, 4 and 1 years are cut off in turn.
\<close>

definition absYear :: "int \<Rightarrow> int \<times> int" where
  "absYear d =
     (let n400 = d div daysPer400Years;
          d1 = d - daysPer400Years * n400;
          n100 = d1 div daysPer100Years;
          n100' = n100 - n100 div 4;
          d2 = d1 - daysPer100Years * n100';
          n4 = d2 div daysPer4Years;
          d3 = d2 - daysPer4Years * n4;
          n1 = d3 div 365;
          n1' = n1 - n1 div 4;
          yday = d3 - 365 * n1'
      in (400 * n400 + 100 * n100' + 4 * n4 + n1' + 1, yday))"

text \<open>Year, month (1 to 12) and day of the month of a day counted from 0001-01-01.\<close>

definition absDate :: "int \<Rightarrow> int \<times> int \<times> int" where
  "absDate d =
     (let (year, yday) = absYear d in
      if isLeap year \<and> yday = 31 + 29 - 1 then (year, 2, 29)
      else
        (let day = (if isLeap year \<and> yday > 31 + 29 - 1 then yday - 1 else yday);
             month = day div 31;
             end = daysBefore ! nat (month + 1);
             (month', begin) =
                (if day \<ge> end then (month + 1, end) else (month, daysBefore ! nat month))
         in (year, month' + 1, day - begin + 1)))"

definition daysSinceEpoch :: "int \<Rightarrow> int" where
  "daysSinceEpoch year =
     (let y = year - 1;
          n400 = y div 400;
          y1 = y - 400 * n400;
          n100 = y1 div 100;
          y2 = y1 - 100 * n100;
          n4 = y2 div 4;
          y3 = y2 - 4 * n4
      in daysPer400Years * n400 + daysPer100Years * n100 + daysPer4Years * n4 + 365 * y3)"

text \<open>
  \<open>time.Date(year, month, day, hour, min, sec, nsec, time.UTC)\<close> for arguments in their
  normal ranges (the program calls it once, on constants).
\<close>

definition Date :: "int \<Rightarrow> int \<Rightarrow> int \<Rightarrow> int \<Rightarrow> int \<Rightarrow> int \<Rightarrow> int \<Rightarrow> Time" where
  "Date year month day hour minute sec nsec =
     (let d = daysSinceEpoch year + daysBefore ! nat (month - 1)
                + (if isLeap year \<and> month \<ge> 3 then 1 else 0) + (day - 1);
          abs = d * 86400 + (hour * 3600 + minute * 60 + sec)
      in abs * 1000000000 + nsec)"

text \<open>The day an instant falls on, counted from 0001-01-01.\<close>

definition absDays :: "Time \<Rightarrow> int" where
  "absDays t = t div 86400000000000"

definition Time_Year :: "Time \<Rightarrow> int" where
  "Time_Year t = fst (absDate (absDays t))"

definition Time_Month :: "Time \<Rightarrow> int" where
  "Time_Month t = fst (snd (absDate (absDays t)))"

definition Time_Day :: "Time \<Rightarrow> int" where
  "Time_Day t = snd (snd (absDate (absDays t)))"

section \<open>Package \<open>fiscal\<close>\<close>

definition Day :: Duration where
  "Day = 24 * Hour"

definition first :: Time where
  "first = Date 2005 9 25 0 0 0 0"

subsection \<open>\<open>Year\<close>\<close>

text \<open>
  One pass through the body of the loop of \<open>Year\<close>: the end of the fiscal year that
  starts at \<open>start\<close> (exclusive: the next fiscal year starts there).
\<close>

definition Year_end :: "Time \<Rightarrow> Time" where
  "Year_end start =
     (let end = Add start (364 * Day) in
      if Time_Day end < 25 then Add end (7 * Day) else end)"

text \<open>
  The loop of \<open>Year\<close> has no bound, so it is a partial function: \<open>None\<close> stands for a
  loop that never returns.
\<close>

partial_function (option) Year_loop :: "int \<Rightarrow> Time \<Rightarrow> (Time \<times> Time) option" where
  "Year_loop year start =
     (let end = Year_end start in
      if Time_Year end \<ge> year then Some (start, Add end (- Nanosecond))
      else Year_loop year end)"

declare Year_loop.simps [code]

definition Year :: "int \<Rightarrow> (Time \<times> Time) option" where
  "Year year = Year_loop year first"

subsection \<open>\<open>Quarter\<close> and \<open>Period\<close>\<close>

definition Quarter :: "int \<Rightarrow> int \<Rightarrow> (Time \<times> Time) option" where
  "Quarter year quarter =
     (case Year year of
        None \<Rightarrow> None
      | Some (start, end) \<Rightarrow>
          (let quarter1 = (if quarter < 1 then 1 else quarter);
               quarter2 = (if quarter1 > 4 then 4 else quarter1);
               quarter3 = quarter2 - 1;
               qstart = quarter3 * 91;
               qend = (quarter3 + 1) * 91;
               (qstart', qend') =
                  (if moreThan364Days (Sub end start)
                   then (qstart + go_div (quarter3 + 3) 4 * 7,
                         qend + go_div (quarter3 + 4) 4 * 7)
                   else (qstart, qend))
           in Some (Add start (qstart' * Day),
                    Add (Add start (qend' * Day)) (- Nanosecond))))"

definition Period :: "int \<Rightarrow> int \<Rightarrow> (Time \<times> Time) option" where
  "Period year period =
     (case Year year of
        None \<Rightarrow> None
      | Some (start, end) \<Rightarrow>
          (let period1 = (if period < 1 then 1 else period);
               period2 = (if period1 > 12 then 12 else period1);
               period3 = period2 - 1;
               pstart = period3 * 28 + go_div (period3 + 2) 3 * 7;
               pend = (period3 + 1) * 28 + go_div (period3 + 3) 3 * 7;
               (pstart', pend') =
                  (if moreThan364Days (Sub end start)
                   then (pstart + go_div (period3 + 9) 12 * 7,
                         pend + go_div (period3 + 10) 12 * 7)
                   else (pstart, pend))
           in Some (Add start (pstart' * Day),
                    Add (Add start (pend' * Day)) (- Nanosecond))))"

subsection \<open>\<open>YearForDate\<close>, \<open>QuarterForDate\<close> and \<open>PeriodForDate\<close>\<close>

definition YearForDate :: "Time \<Rightarrow> int option" where
  "YearForDate date =
     (case Year (Time_Year date) of
        None \<Rightarrow> None
      | Some (start, end) \<Rightarrow>
          if Before end date then Some (Time_Year date + 1) else Some (Time_Year date))"

text \<open>
  The scans of \<open>QuarterForDate\<close> and \<open>PeriodForDate\<close> count upwards without a bound;
  \<open>None\<close> again stands for a scan that never returns (the 64-bit counter of the
  program would need \<open>2\<^sup>6\<^sup>3\<close> passes to wrap around).
\<close>

partial_function (option) QuarterForDate_loop :: "Time \<Rightarrow> int \<Rightarrow> int \<Rightarrow> (int \<times> int) option" where
  "QuarterForDate_loop date year quarter =
     (case Quarter year quarter of
        None \<Rightarrow> None
      | Some (start, end) \<Rightarrow>
          if \<not> Before date start \<and> \<not> After date end then Some (year, quarter)
          else QuarterForDate_loop date year (quarter + 1))"

declare QuarterForDate_loop.simps [code]

definition QuarterForDate :: "Time \<Rightarrow> (int \<times> int) option" where
  "QuarterForDate date =
     (case Year (Time_Year date) of
        None \<Rightarrow> None
      | Some (start, end) \<Rightarrow>
          (let (year, start') =
                  (if Before end date then (Time_Year date + 1, Add end Nanosecond)
                   else (Time_Year date, start));
               daysSinceStart = wholeDays (Round (Sub date start') Hour)
           in QuarterForDate_loop date year (1 + go_div daysSinceStart 98)))"

partial_function (option) PeriodForDate_loop :: "Time \<Rightarrow> int \<Rightarrow> int \<Rightarrow> (int \<times> int) option" where
  "PeriodForDate_loop date year period =
     (case Period year period of
        None \<Rightarrow> None
      | Some (start, end) \<Rightarrow>
          if \<not> Before date start \<and> \<not> After date end then Some (year, period)
          else PeriodForDate_loop date year (period + 1))"

declare PeriodForDate_loop.simps [code]

definition PeriodForDate :: "Time \<Rightarrow> (int \<times> int) option" where
  "PeriodForDate date =
     (case Year (Time_Year date) of
        None \<Rightarrow> None
      | Some (start, end) \<Rightarrow>
          (let (year, start') =
                  (if Before end date then (Time_Year date + 1, Add end Nanosecond)
                   else (Time_Year date, start));
               daysSinceStart = wholeDays (Round (Sub date start') Hour)
           in PeriodForDate_loop date year (1 + go_div daysSinceStart 35)))"

section \<open>Auxiliary definitions\<close>

text \<open>
  The part of \<open>absYear\<close> after the cycles of 400 years have been cut off: the year
  within the cycle (from 1) and the day within that year.
\<close>

definition cycleYear :: "int \<Rightarrow> int \<times> int" where
  "cycleYear d1 =
     (let n100 = d1 div daysPer100Years;
          n100' = n100 - n100 div 4;
          d2 = d1 - daysPer100Years * n100';
          n4 = d2 div daysPer4Years;
          d3 = d2 - daysPer4Years * n4;
          n1 = d3 div 365;
          n1' = n1 - n1 div 4;
          yday = d3 - 365 * n1'
      in (100 * n100' + 4 * n4 + n1' + 1, yday))"

text \<open>The last instant a \<open>time.Time\<close> holds.\<close>

definition maxTime :: Time where
  "maxTime = (2 ^ 63 - 1) * 1000000000 + 999999999"

text \<open>
  An instant from which a fiscal year can start: it is not before 0001-01-01, and 371
  days later \<open>Add\<close> has not reached the last instant.
\<close>

definition inRange :: "Time \<Rightarrow> bool" where
  "inRange s = (0 \<le> s \<and> s + 371 * Day \<le> maxTime)"

text \<open>
  The body of the loop of \<open>Year\<close> with plain sums in the place of \<open>Add\<close>: what
  \<open>Year_end\<close> computes from an instant in that range.
\<close>

definition plainEnd :: "Time \<Rightarrow> Time" where
  "plainEnd start =
     (let end = start + 364 * Day in
      if Time_Day end < 25 then end + 7 * Day else end)"

text \<open>
  The values the variable \<open>start\<close> of the loop of \<open>Year\<close> takes, one pass after the
  other, as long as they stay in that range: the starts of the fiscal years 2006, 2007,
  \<dots>
\<close>

primrec starts :: "nat \<Rightarrow> Time" where
  "starts 0 = first"
| "starts (Suc k) = plainEnd (starts k)"

text \<open>
  \<open>walk n s y\<close> runs the body of that loop \<open>n\<close> times from \<open>s\<close> and checks that the
  ends it computes fall in the calendar years \<open>y\<close>, \<open>y + 1\<close>, \<dots>; it returns the last
  end.
\<close>

fun walk :: "nat \<Rightarrow> Time \<Rightarrow> int \<Rightarrow> Time option" where
  "walk 0 s y = Some s"
| "walk (Suc n) s y = (let e = plainEnd s in if Time_Year e = y then walk n e (y + 1) else None)"

text \<open>The length of a range that \<open>Year\<close>, \<open>Quarter\<close> or \<open>Period\<close> returns, in days.\<close>

definition days_long :: "(Time \<times> Time) option \<Rightarrow> int \<Rightarrow> bool" where
  "days_long r n =
     (case r of None \<Rightarrow> False | Some (start, end) \<Rightarrow> Sub (Add end Nanosecond) start = n * Day)"

definition lengthDays :: "Time \<Rightarrow> Time \<Rightarrow> int" where
  "lengthDays start end = go_div (Sub (Add end Nanosecond) start) Day"

section \<open>The calendar repeats every 400 years\<close>

text \<open>
  400 years are 146097 days, a whole number of weeks: 146097 days later the year is 400
  higher and the month and the day are the same. So the body of the loop of \<open>Year\<close>
  does 146097 days later what it does now.
\<close>

lemma absYear_cycle: "absYear d = (400 * (d div 146097) + fst (cycleYear (d mod 146097)), snd (cycleYear (d mod 146097)))"
proof -
  have m: "d - 146097 * (d div 146097) = d mod 146097"
    by (simp add: minus_mult_div_eq_mod)
  have c: "(365::int) * 400 + 97 = 146097" by simp
  show ?thesis
    unfolding absYear_def cycleYear_def daysPer400Years_def c
    by (simp only: Let_def m fst_conv snd_conv add.assoc)
qed

lemma absYear_400: "absYear (d + 146097) = (fst (absYear d) + 400, snd (absYear d))"
proof -
  have q: "(d + 146097) div 146097 = d div 146097 + 1" by simp
  have r: "(d + 146097) mod 146097 = d mod 146097" by simp
  show ?thesis
    by (simp only: absYear_cycle q r fst_conv snd_conv) simp
qed

lemma isLeap_400: "isLeap (y + 400) = isLeap y"
proof -
  have "(y + 400) mod 4 = y mod 4" using mod_mult_self2 [of y 4 100] by simp
  moreover have "(y + 400) mod 100 = y mod 100" using mod_mult_self2 [of y 100 4] by simp
  moreover have "(y + 400) mod 400 = y mod 400" by simp
  ultimately show ?thesis by (simp add: isLeap_def)
qed

lemma absDate_400: "absDate (d + 146097) = (fst (absDate d) + 400, snd (absDate d))"
  unfolding absDate_def absYear_400 by (simp add: isLeap_400 Let_def split_beta)

section \<open>The fiscal years of the first 400 years, by evaluation\<close>

text \<open>
  400 passes through the body of the loop of \<open>Year\<close>, evaluated in eight runs of 50: the end of pass
  \<open>k\<close> falls in calendar year \<open>2006 + k\<close>, and the 400 fiscal years take 146097 days.
  With the period of the calendar this gives the calendar year of the end of every pass.
\<close>

lemma walk_chunk1: "walk 50 (first + 0 * Day) 2006 = Some (first + 18263 * Day)"
  by code_simp

lemma walk_chunk2: "walk 50 (first + 18263 * Day) 2056 = Some (first + 36526 * Day)"
  by code_simp

lemma walk_chunk3: "walk 50 (first + 36526 * Day) 2106 = Some (first + 54789 * Day)"
  by code_simp

lemma walk_chunk4: "walk 50 (first + 54789 * Day) 2156 = Some (first + 73052 * Day)"
  by code_simp

lemma walk_chunk5: "walk 50 (first + 73052 * Day) 2206 = Some (first + 91315 * Day)"
  by code_simp

lemma walk_chunk6: "walk 50 (first + 91315 * Day) 2256 = Some (first + 109578 * Day)"
  by code_simp

lemma walk_chunk7: "walk 50 (first + 109578 * Day) 2306 = Some (first + 127834 * Day)"
  by code_simp

lemma walk_chunk8: "walk 50 (first + 127834 * Day) 2356 = Some (first + 146097 * Day)"
  by code_simp

lemma walk_append:
  "walk n s y = Some s' \<Longrightarrow> walk m s' (y + int n) = Some s'' \<Longrightarrow> walk (n + m) s y = Some s''"
proof (induction n arbitrary: s y)
  case 0
  then show ?case by simp
next
  case (Suc n)
  from Suc.prems(1) have y: "Time_Year (plainEnd s) = y"
    and w: "walk n (plainEnd s) (y + 1) = Some s'"
    by (auto simp: Let_def split: if_splits)
  have "y + int (Suc n) = y + 1 + int n" by simp
  with Suc.prems(2) have "walk m s' (y + 1 + int n) = Some s''" by (simp only:)
  from Suc.IH [OF w this] show ?case using y by simp
qed

lemma walk_400: "walk 400 first 2006 = Some (first + 146097 * Day)"
proof -
  note a = walk_append [where n = 50 and m = 50, simplified]
  note b = walk_append [where n = 100 and m = 100, simplified]
  note c = walk_append [where n = 200 and m = 200, simplified]
  have c1: "walk 50 first 2006 = Some (first + 18263 * Day)"
    using walk_chunk1 by simp
  have h1: "walk 100 first 2006 = Some (first + 36526 * Day)"
    by (rule a [OF c1]) (use walk_chunk2 in simp)
  have h2: "walk 100 (first + 36526 * Day) 2106 = Some (first + 73052 * Day)"
    by (rule a [OF walk_chunk3]) (use walk_chunk4 in simp)
  have h3: "walk 100 (first + 73052 * Day) 2206 = Some (first + 109578 * Day)"
    by (rule a [OF walk_chunk5]) (use walk_chunk6 in simp)
  have h4: "walk 100 (first + 109578 * Day) 2306 = Some (first + 146097 * Day)"
    by (rule a [OF walk_chunk7]) (use walk_chunk8 in simp)
  have g1: "walk 200 first 2006 = Some (first + 73052 * Day)"
    by (rule b [OF h1]) (use h2 in simp)
  have g2: "walk 200 (first + 73052 * Day) 2206 = Some (first + 146097 * Day)"
    by (rule b [OF h3]) (use h4 in simp)
  show ?thesis
    by (rule c [OF g1]) (use g2 in simp)
qed

lemma Day_val: "Day = 86400000000000"
  by (simp add: Day_def Hour_def)

lemma absDays_add: "absDays (t + n * Day) = absDays t + n"
  by (simp add: absDays_def Day_val)

lemma absDays_400: "absDays (t + 146097 * Day) = absDays t + 146097"
  using absDays_add [of t 146097] by simp

lemma Time_Year_400: "Time_Year (t + 146097 * Day) = Time_Year t + 400"
  by (simp only: Time_Year_def absDays_400 absDate_400 fst_conv)

lemma Time_Day_400: "Time_Day (t + 146097 * Day) = Time_Day t"
  by (simp only: Time_Day_def absDays_400 absDate_400 snd_conv)

lemma plainEnd_400: "plainEnd (s + 146097 * Day) = plainEnd s + 146097 * Day"
proof -
  have h: "s + 146097 * Day + 364 * Day = (s + 364 * Day) + 146097 * Day" by simp
  show ?thesis
    unfolding plainEnd_def Let_def h Time_Day_400 by simp
qed

lemma walk_sound:
  "walk n s y = Some s' \<Longrightarrow>
     s' = (plainEnd ^^ n) s \<and> (\<forall>k<n. Time_Year ((plainEnd ^^ Suc k) s) = y + int k)"
proof (induction n arbitrary: s y)
  case 0
  then show ?case by simp
next
  case (Suc n)
  from Suc.prems have y: "Time_Year (plainEnd s) = y"
    and w: "walk n (plainEnd s) (y + 1) = Some s'"
    by (auto simp: Let_def split: if_splits)
  from Suc.IH [OF w] have s': "s' = (plainEnd ^^ n) (plainEnd s)"
    and ys: "\<And>k. k < n \<Longrightarrow> Time_Year ((plainEnd ^^ Suc k) (plainEnd s)) = y + 1 + int k"
    by auto
  have "Time_Year ((plainEnd ^^ Suc k) s) = y + int k" if "k < Suc n" for k
  proof (cases k)
    case 0
    then show ?thesis using y by simp
  next
    case (Suc j)
    with that have "j < n" by simp
    from ys [OF this] show ?thesis
      by (simp add: Suc funpow_swap1 del: funpow.simps) (simp add: funpow_swap1)
  qed
  then show ?case using s' by (simp add: funpow_swap1)
qed

lemma starts_funpow: "starts k = (plainEnd ^^ k) first"
  by (induction k) simp_all

lemma starts_400: "starts (k + 400) = starts k + 146097 * Day"
proof (induction k)
  case 0
  from walk_sound [OF walk_400] show ?case by (simp add: starts_funpow)
next
  case (Suc k)
  have "starts (Suc k + 400) = plainEnd (starts (k + 400))"
    by (simp only: add_Suc starts.simps)
  with Suc show ?case by (simp only: plainEnd_400 starts.simps)
qed

lemma year_starts_low: "k < 400 \<Longrightarrow> Time_Year (starts (Suc k)) = 2006 + int k"
  using walk_sound [OF walk_400] by (simp only: starts_funpow)

lemma year_starts: "Time_Year (starts (Suc k)) = 2006 + int k"
proof (induction k rule: less_induct)
  case (less k)
  show ?case
  proof (cases "k < 400")
    case True
    then show ?thesis by (rule year_starts_low)
  next
    case False
    then obtain j where k: "k = j + 400" using le_Suc_ex [of 400 k] by (auto simp: add.commute)
    then have "j < k" by simp
    from less [OF this] have "Time_Year (starts (Suc j)) = 2006 + int j" .
    moreover have "starts (Suc k) = starts (Suc j) + 146097 * Day"
      using starts_400 [of "Suc j"] k by simp
    ultimately show ?thesis using k by (simp add: Time_Year_400)
  qed
qed

lemma year_ends: "Time_Year (plainEnd (starts k)) = 2006 + int k"
  using year_starts [of k] by simp

section \<open>The calendar year grows with the instant\<close>

lemma cap_mono: "n \<le> n' \<Longrightarrow> n - n div 4 \<le> n' - n' div (4::int)"
  by arith

lemma cap_range: "0 \<le> n \<Longrightarrow> n \<le> 4 \<Longrightarrow> 0 \<le> n - n div 4 \<and> n - n div (4::int) \<le> 3"
  by arith

lemma cap_rest:
  fixes x m :: int
  assumes "0 \<le> x" and "x \<le> 4 * m" and "0 < m"
  shows "0 \<le> x - m * (x div m - x div m div 4) \<and> x - m * (x div m - x div m div 4) \<le> m"
proof -
  let ?n = "x div m"
  have n0: "0 \<le> ?n" using assms by (simp add: pos_imp_zdiv_nonneg_iff)
  have "?n \<le> (4 * m) div m" using assms by (intro zdiv_mono1) simp_all
  then have n4: "?n \<le> 4" using assms by simp
  have r: "x - m * ?n = x mod m" by (simp add: minus_mult_div_eq_mod)
  have r0: "0 \<le> x mod m" "x mod m < m" using assms by simp_all
  show ?thesis
  proof (cases "?n = 4")
    case True
    have "x = m * ?n + x mod m" by simp
    with True have x: "x = 4 * m + x mod m" by simp
    with assms(2) r0(1) have "x mod m = 0" by linarith
    with x have "x = 4 * m" by simp
    then show ?thesis using assms(3) by simp
  next
    case False
    with n0 n4 have "?n div 4 = 0" by simp
    with r r0 show ?thesis by simp
  qed
qed

lemma cycleYear_stages:
  assumes "0 \<le> r" and "r < 146097"
  defines "a \<equiv> r div 36524 - r div 36524 div 4"
  defines "d2 \<equiv> r - 36524 * a"
  defines "b \<equiv> d2 div 1461"
  defines "d3 \<equiv> d2 - 1461 * b"
  defines "e \<equiv> d3 div 365 - d3 div 365 div 4"
  shows "cycleYear r = (100 * a + 4 * b + e + 1, d3 - 365 * e)"
    and "0 \<le> a" and "a \<le> 3" and "0 \<le> d2" and "d2 \<le> 36524" and "0 \<le> b" and "b \<le> 24"
    and "0 \<le> d3" and "d3 \<le> 1460" and "0 \<le> e" and "e \<le> 3"
    and "0 \<le> d3 - 365 * e" and "d3 - 365 * e \<le> 365"
proof -
  show "cycleYear r = (100 * a + 4 * b + e + 1, d3 - 365 * e)"
    by (simp add: cycleYear_def a_def d2_def b_def d3_def e_def Let_def
        daysPer100Years_def daysPer4Years_def)
  have n: "0 \<le> r div 36524" "r div 36524 \<le> 4" using assms(1,2) by simp_all
  from cap_range [OF n] show "0 \<le> a" "a \<le> 3" by (simp_all add: a_def)
  have "r \<le> 4 * 36524" using assms(2) by simp
  from cap_rest [OF assms(1) this] show d2: "0 \<le> d2" "d2 \<le> 36524"
    by (simp_all add: d2_def a_def)
  then show b: "0 \<le> b" "b \<le> 24" by (simp_all add: b_def)
  have "d3 = d2 mod 1461" by (simp add: d3_def b_def minus_mult_div_eq_mod)
  then show d3: "0 \<le> d3" "d3 \<le> 1460" by simp_all
  then have m: "0 \<le> d3 div 365" "d3 div 365 \<le> 4" by simp_all
  from cap_range [OF m] show "0 \<le> e" "e \<le> 3" by (simp_all add: e_def)
  have "d3 \<le> 4 * 365" using d3 by simp
  from cap_rest [OF d3(1) this] show "0 \<le> d3 - 365 * e" "d3 - 365 * e \<le> 365"
    by (simp_all add: e_def)
qed

lemma cycleYear_range:
  assumes "0 \<le> r" and "r < 146097"
  shows "1 \<le> fst (cycleYear r)" and "fst (cycleYear r) \<le> 400"
proof -
  define a where "a = r div 36524 - r div 36524 div 4"
  define b where "b = (r - 36524 * a) div 1461"
  define e where "e = (r - 36524 * a - 1461 * b) div 365 - (r - 36524 * a - 1461 * b) div 365 div 4"
  note s = cycleYear_stages [OF assms, folded a_def, folded b_def, folded e_def]
  have c: "fst (cycleYear r) = 100 * a + 4 * b + e + 1" by (simp only: s(1) fst_conv)
  have bounds: "0 \<le> a" "a \<le> 3" "0 \<le> b" "b \<le> 24" "0 \<le> e" "e \<le> 3"
    by (rule s)+
  show "1 \<le> fst (cycleYear r)" "fst (cycleYear r) \<le> 400"
    unfolding c using bounds by linarith+
qed

lemma cycleYear_mono:
  assumes "0 \<le> r" and "r \<le> r'" and "r' < 146097"
  shows "fst (cycleYear r) \<le> fst (cycleYear r')"
proof -
  have r: "0 \<le> r" "r < 146097" and r': "0 \<le> r'" "r' < 146097" using assms by simp_all
  define a where "a = r div 36524 - r div 36524 div 4"
  define d2 where "d2 = r - 36524 * a"
  define b where "b = d2 div 1461"
  define d3 where "d3 = d2 - 1461 * b"
  define e where "e = d3 div 365 - d3 div 365 div 4"
  define a' where "a' = r' div 36524 - r' div 36524 div 4"
  define d2' where "d2' = r' - 36524 * a'"
  define b' where "b' = d2' div 1461"
  define d3' where "d3' = d2' - 1461 * b'"
  define e' where "e' = d3' div 365 - d3' div 365 div 4"
  note s = cycleYear_stages [OF r, folded a_def, folded d2_def, folded b_def, folded d3_def,
      folded e_def]
  note s' = cycleYear_stages [OF r', folded a'_def, folded d2'_def, folded b'_def, folded d3'_def,
      folded e'_def]
  have c: "fst (cycleYear r) = 100 * a + 4 * b + e + 1" by (simp only: s(1) fst_conv)
  have c': "fst (cycleYear r') = 100 * a' + 4 * b' + e' + 1" by (simp only: s'(1) fst_conv)
  have bounds: "b \<le> 24" "e \<le> 3" by (rule s)+
  have bounds': "0 \<le> b'" "0 \<le> e'" by (rule s')+
  have "r div 36524 \<le> r' div 36524" using assms(2) by (intro zdiv_mono1) simp_all
  then have a: "a \<le> a'" unfolding a_def a'_def by (rule cap_mono)
  have "100 * a + 4 * b + e \<le> 100 * a' + 4 * b' + e'"
  proof (cases "a = a'")
    case False
    with a have "a + 1 \<le> a'" by simp
    then show ?thesis using bounds bounds' by linarith
  next
    case True
    then have d2: "d2 \<le> d2'" using assms(2) by (simp add: d2_def d2'_def)
    then have b: "b \<le> b'" unfolding b_def b'_def by (intro zdiv_mono1) simp_all
    show ?thesis
    proof (cases "b = b'")
      case False
      with b have "b + 1 \<le> b'" by simp
      then show ?thesis using True bounds bounds' by linarith
    next
      case bb: True
      then have "d3 \<le> d3'" using d2 by (simp add: d3_def d3'_def)
      then have "d3 div 365 \<le> d3' div 365" by (intro zdiv_mono1) simp_all
      then have "e \<le> e'" unfolding e_def e'_def by (rule cap_mono)
      then show ?thesis using True bb by linarith
    qed
  qed
  then show ?thesis unfolding c c' by linarith
qed

lemma absYear_mono: "d \<le> d' \<Longrightarrow> fst (absYear d) \<le> fst (absYear d')"
proof -
  assume le: "d \<le> d'"
  have m: "0 \<le> d mod 146097" "d mod 146097 < 146097" "0 \<le> d' mod 146097" "d' mod 146097 < 146097"
    by simp_all
  have q: "d div 146097 \<le> d' div 146097" using le by (intro zdiv_mono1) simp_all
  show ?thesis
  proof (cases "d div 146097 = d' div 146097")
    case True
    have "d mod 146097 = d - 146097 * (d div 146097)" "d' mod 146097 = d' - 146097 * (d' div 146097)"
      by (simp_all add: minus_mult_div_eq_mod)
    with True le have "d mod 146097 \<le> d' mod 146097" by simp
    from cycleYear_mono [OF m(1) this m(4)] True show ?thesis
      by (simp only: absYear_cycle fst_conv)
  next
    case False
    with q have "d div 146097 + 1 \<le> d' div 146097" by simp
    moreover have "fst (cycleYear (d mod 146097)) \<le> 400" "1 \<le> fst (cycleYear (d' mod 146097))"
      by (rule cycleYear_range [OF m(1,2)], rule cycleYear_range [OF m(3,4)])
    ultimately have "400 * (d div 146097) + fst (cycleYear (d mod 146097))
        \<le> 400 * (d' div 146097) + fst (cycleYear (d' mod 146097))"
      by linarith
    then show ?thesis by (simp only: absYear_cycle fst_conv)
  qed
qed

lemma Time_Year_mono: "t \<le> u \<Longrightarrow> Time_Year t \<le> Time_Year u"
proof -
  assume "t \<le> u"
  then have "absDays t \<le> absDays u" unfolding absDays_def by (intro zdiv_mono1) simp_all
  from absYear_mono [OF this] show ?thesis
    by (simp add: Time_Year_def absDate_def Let_def split_beta)
qed

section \<open>\<open>Add\<close> inside the range of \<open>time.Time\<close>\<close>

text \<open>
  \<open>Add\<close> never passes the last instant, and it is the plain sum where the sum is an
  instant from 0001-01-01 on and not after the last instant.
\<close>

lemma go_rem_bounds:
  "- 1000000000 < go_rem d 1000000000 \<and> go_rem d 1000000000 < 1000000000"
proof (cases "0 \<le> d")
  case True
  then have "go_rem d 1000000000 = d mod 1000000000"
    by (simp add: go_rem_def go_div_def minus_mult_div_eq_mod sgn_if)
  then show ?thesis by simp
next
  case False
  then have "go_div d 1000000000 = - ((- d) div 1000000000)"
    by (simp add: go_div_def sgn_if)
  then have "go_rem d 1000000000 = - ((- d) mod 1000000000)"
    by (simp add: go_rem_def minus_mult_div_eq_mod [symmetric])
  moreover have "0 \<le> (- d) mod 1000000000" "(- d) mod 1000000000 < 1000000000" by simp_all
  ultimately show ?thesis by linarith
qed

lemma Add_parts:
  "\<exists>q n. Add t d = addSec (t div 1000000000) q * 1000000000 + n \<and> 0 \<le> n \<and> n < 1000000000 \<and>
     1000000000 * (t div 1000000000 + q) + n = t + d"
proof -
  define q where "q = go_div d 1000000000"
  define r where "r = go_rem d 1000000000"
  define ts where "ts = t div 1000000000"
  define tn where "tn = t mod 1000000000"
  have d: "d = 1000000000 * q + r" by (simp add: q_def r_def go_rem_def)
  have r: "- 1000000000 < r" "r < 1000000000" using go_rem_bounds [of d] by (simp_all add: r_def)
  have t: "t = 1000000000 * ts + tn" and tn: "0 \<le> tn" "tn < 1000000000"
    by (simp_all add: ts_def tn_def)
  have A: "Add t d =
      (if tn + r \<ge> 1000000000 then addSec ts (q + 1) * 1000000000 + (tn + r - 1000000000)
       else if tn + r < 0 then addSec ts (q - 1) * 1000000000 + (tn + r + 1000000000)
       else addSec ts q * 1000000000 + (tn + r))"
    by (simp add: Add_def Let_def q_def r_def ts_def tn_def)
  consider "tn + r \<ge> 1000000000" | "tn + r < 0" | "0 \<le> tn + r" "tn + r < 1000000000" by linarith
  then show ?thesis
  proof cases
    case 1
    show ?thesis
      apply (rule exI [of _ "q + 1"], rule exI [of _ "tn + r - 1000000000"])
      using 1 A r tn d t unfolding ts_def [symmetric] by simp
  next
    case 2
    show ?thesis
      apply (rule exI [of _ "q - 1"], rule exI [of _ "tn + r + 1000000000"])
      using 2 A r tn d t unfolding ts_def [symmetric] by simp
  next
    case 3
    show ?thesis
      apply (rule exI [of _ "q"], rule exI [of _ "tn + r"])
      using 3 A r tn d t unfolding ts_def [symmetric] by simp
  qed
qed

lemma addSec_le: "addSec ext d \<le> 9223372036854775807"
  by (simp add: addSec_def Let_def)

lemma Add_le_max: "Add t d \<le> maxTime"
proof -
  from Add_parts [of t d] obtain q n
    where "Add t d = addSec (t div 1000000000) q * 1000000000 + n" "n < 1000000000" by blast
  moreover have "addSec (t div 1000000000) q * 1000000000 \<le> 9223372036854775807 * 1000000000"
    using addSec_le [of "t div 1000000000" q] by simp
  ultimately show ?thesis by (simp add: maxTime_def)
qed

lemma Add_plain:
  assumes "0 \<le> t + d" and "t + d \<le> maxTime"
  shows "Add t d = t + d"
proof -
  from Add_parts [of t d] obtain q n
    where A: "Add t d = addSec (t div 1000000000) q * 1000000000 + n"
      and n: "0 \<le> n" "n < 1000000000"
      and e: "1000000000 * (t div 1000000000 + q) + n = t + d" by blast
  define S where "S = t div 1000000000 + q"
  have e': "1000000000 * S + n = t + d" using e by (simp add: S_def)
  have "- 1000000000 < 1000000000 * S" using e' n assms(1) by linarith
  then have lo: "0 \<le> S" by simp
  have "1000000000 * S < 1000000000 * 9223372036854775808"
    using e' n assms(2) by (simp add: maxTime_def)
  then have hi: "S \<le> 9223372036854775807" by simp
  have "addSec (t div 1000000000) q = S"
    using lo hi by (simp add: addSec_def Let_def S_def)
  with A e' show ?thesis by simp
qed

section \<open>The fiscal years that \<open>time.Time\<close> holds\<close>

lemma maxTime_val: "maxTime = 9223372036854775807999999999"
  by (simp add: maxTime_def)

lemma Add_start: "inRange s \<Longrightarrow> Add s 0 = s"
  by (rule Add_plain [of s 0, simplified]) (simp_all add: inRange_def Day_val)

lemma Add_days: "inRange s \<Longrightarrow> 0 \<le> k \<Longrightarrow> k \<le> 371 \<Longrightarrow> Add s (k * Day) = s + k * Day"
  by (rule Add_plain) (simp_all add: inRange_def Day_val)

lemma Add_week: "inRange s \<Longrightarrow> Add (s + 364 * Day) (7 * Day) = s + 371 * Day"
  using Add_plain [of "s + 364 * Day" "7 * Day"] by (simp add: inRange_def Day_val)

lemma Add_ns_back:
  "inRange s \<Longrightarrow> 0 < k \<Longrightarrow> k \<le> 371 \<Longrightarrow> Add (s + k * Day) (- 1) = s + k * Day - 1"
  using Add_plain [of "s + k * Day" "- 1"] by (simp add: inRange_def Day_val)

lemma Add_ns_forth:
  "inRange s \<Longrightarrow> 0 < k \<Longrightarrow> k \<le> 371 \<Longrightarrow> Add (s + k * Day - 1) 1 = s + k * Day"
  using Add_plain [of "s + k * Day - 1" 1] by (simp add: inRange_def Day_val)

lemmas Add_in_year = Add_start Add_days Add_week Add_ns_back Add_ns_forth

lemma plainEnd_cases:
  "plainEnd s = (if Time_Day (s + 364 * Day) < 25 then s + 371 * Day else s + 364 * Day)"
  by (simp add: plainEnd_def Let_def)

lemma Year_end_plain: "inRange s \<Longrightarrow> Year_end s = plainEnd s"
  by (simp add: Year_end_def plainEnd_def Let_def Add_in_year)

lemma plainEnd_ge: "s \<le> plainEnd s"
  by (simp add: plainEnd_cases Day_val)

lemma starts_mono: "i \<le> j \<Longrightarrow> starts i \<le> starts j"
proof (induction j)
  case 0
  then show ?case by simp
next
  case (Suc j)
  show ?case
  proof (cases "i = Suc j")
    case True
    then show ?thesis by simp
  next
    case False
    with Suc.prems have "i \<le> j" by simp
    from Suc.IH [OF this] plainEnd_ge [of "starts j"] show ?thesis by simp
  qed
qed

lemma starts_cycles: "starts (k + 400 * c) = starts k + int c * (146097 * Day)"
proof (induction c)
  case 0
  show ?case by simp
next
  case (Suc c)
  have "starts (k + 400 * Suc c) = starts ((k + 400 * c) + 400)" by (simp add: algebra_simps)
  also have "\<dots> = starts (k + 400 * c) + 146097 * Day" by (rule starts_400)
  finally show ?case using Suc by (simp add: algebra_simps)
qed

lemma walk_tail: "walk 21 (first + 73052 * Day) 2206 = Some (first + 80724 * Day)"
  by code_simp

lemma first_val: "first = 63263203200000000000"
  by code_simp

lemma starts_221: "starts 221 = first + 80724 * Day"
proof -
  note b = walk_append [where n = 100 and m = 100, simplified]
  note c = walk_append [where n = 200 and m = 21, simplified]
  have c1: "walk 50 first 2006 = Some (first + 18263 * Day)"
    using walk_chunk1 by simp
  have h1: "walk 100 first 2006 = Some (first + 36526 * Day)"
    by (rule walk_append [where n = 50 and m = 50, simplified, OF c1]) (use walk_chunk2 in simp)
  have h2: "walk 100 (first + 36526 * Day) 2106 = Some (first + 73052 * Day)"
    by (rule walk_append [where n = 50 and m = 50, simplified, OF walk_chunk3])
      (use walk_chunk4 in simp)
  have g1: "walk 200 first 2006 = Some (first + 73052 * Day)"
    by (rule b [OF h1]) (use h2 in simp)
  have "walk 221 first 2006 = Some (first + 80724 * Day)"
    by (rule c [OF g1]) (use walk_tail in simp)
  from walk_sound [OF this] show ?thesis by (simp add: starts_funpow)
qed

text \<open>
  The fiscal years up to 292277024627, the last calendar year a \<open>time.Time\<close> holds, start
  in the range.
\<close>

lemma starts_last: "starts 292277022621 + 371 * Day \<le> maxTime"
proof -
  have "starts (221 + 400 * 730692556) = starts 221 + int 730692556 * (146097 * Day)"
    by (rule starts_cycles)
  then show ?thesis by (simp add: starts_221 first_val Day_val maxTime_val)
qed

lemma inRange_starts: "k \<le> 292277022621 \<Longrightarrow> inRange (starts k)"
proof -
  assume "k \<le> 292277022621"
  then have "starts k \<le> starts 292277022621" by (rule starts_mono)
  moreover have "starts 0 \<le> starts k" by (rule starts_mono) simp
  ultimately show ?thesis using starts_last by (simp add: inRange_def first_val)
qed

section \<open>\<open>Year\<close> in closed form\<close>

text \<open>
  The loop of \<open>Year\<close> leaves at the first pass whose end falls in the year asked for or
  later: pass \<open>y - 2006\<close> for a year \<open>y\<close> from 2006 up to 292277024627, the first pass
  for any year before 2006, and no pass for a year after 292277024627.
\<close>

lemma Add_end_back: "inRange s \<Longrightarrow> Add (plainEnd s) (- 1) = plainEnd s - 1"
  by (simp add: plainEnd_cases Add_in_year)

lemma Add_end_forth: "inRange s \<Longrightarrow> Add (plainEnd s - 1) 1 = plainEnd s"
  by (simp add: plainEnd_cases Add_in_year)

lemma Year_loop_skip:
  "(\<And>j. j < k \<Longrightarrow> inRange (starts j) \<and> Time_Year (plainEnd (starts j)) < year) \<Longrightarrow>
     Year_loop year first = Year_loop year (starts k)"
proof (induction k)
  case 0
  show ?case by simp
next
  case (Suc k)
  then have "Year_loop year first = Year_loop year (starts k)" by simp
  also have "\<dots> = Year_loop year (starts (Suc k))"
    using Suc.prems [of k] by (subst Year_loop.simps) (simp add: Let_def Year_end_plain)
  finally show ?case .
qed

lemma Year_loop_stop:
  "inRange (starts k) \<Longrightarrow> year \<le> Time_Year (plainEnd (starts k)) \<Longrightarrow>
     Year_loop year (starts k) = Some (starts k, plainEnd (starts k) - 1)"
  by (subst Year_loop.simps) (simp add: Let_def Year_end_plain Add_end_back Nanosecond_def)

lemma Year_eq:
  assumes "2006 \<le> y" and "y \<le> 292277024627"
  shows "Year y = Some (starts (nat (y - 2006)), plainEnd (starts (nat (y - 2006))) - 1)"
proof -
  let ?k = "nat (y - 2006)"
  have k: "?k \<le> 292277022621" using assms by simp
  have "Year_loop y first = Year_loop y (starts ?k)"
  proof (rule Year_loop_skip)
    fix j
    assume j: "j < ?k"
    with k have "j \<le> 292277022621" by simp
    then have "inRange (starts j)" by (rule inRange_starts)
    moreover have "Time_Year (plainEnd (starts j)) < y" using j assms by (simp add: year_ends)
    ultimately show "inRange (starts j) \<and> Time_Year (plainEnd (starts j)) < y" ..
  qed
  also have "\<dots> = Some (starts ?k, plainEnd (starts ?k) - 1)"
    using assms by (intro Year_loop_stop inRange_starts [OF k]) (simp add: year_ends)
  finally show ?thesis by (simp add: Year_def)
qed

lemma Year_low:
  assumes "y \<le> 2006"
  shows "Year y = Some (first, plainEnd first - 1)"
proof -
  have "y \<le> Time_Year (plainEnd (starts 0))"
    using assms year_ends [of 0] by simp
  moreover have "inRange (starts 0)" by (rule inRange_starts) simp
  ultimately show ?thesis using Year_loop_stop [of 0 y] by (simp add: Year_def)
qed

lemma plainEnd_first: "plainEnd first = first + 371 * Day"
  by code_simp

lemma inRange_first: "inRange first"
  using inRange_starts [of 0] by simp

lemma Sub_364: "Sub (s + 364 * Day) s = 364 * Day"
  by (simp add: Sub_def Day_val minDuration_def maxDuration_def)

lemma Sub_371: "Sub (s + 371 * Day) s = 371 * Day"
  by (simp add: Sub_def Day_val minDuration_def maxDuration_def)

lemma Day_neq: "364 * Day \<noteq> 371 * Day"
  by (simp add: Day_val)

lemma Year_returns:
  assumes "y \<le> 292277024627"
  shows "\<exists>k. k \<le> 292277022621 \<and> Year y = Some (starts k, plainEnd (starts k) - 1)"
proof (cases "2006 \<le> y")
  case True
  from Year_eq [OF this assms] assms show ?thesis
    by (intro exI [of _ "nat (y - 2006)"]) simp
next
  case False
  then have "y \<le> 2006" by simp
  from Year_low [OF this] show ?thesis by (intro exI [of _ 0]) simp
qed

lemma Time_Year_maxTime: "Time_Year maxTime = 292277024627"
  by code_simp

lemma Time_Year_Year_end: "Time_Year (Year_end s) \<le> 292277024627"
proof -
  have "Year_end s \<le> maxTime" by (simp add: Year_end_def Let_def Add_le_max)
  from Time_Year_mono [OF this] show ?thesis by (simp add: Time_Year_maxTime)
qed

text \<open>
  No instant falls in a calendar year after 292277024627, so for a later year the loop of
  \<open>Year\<close> never meets its exit test.
\<close>

lemma Year_loop_bounded: "Year_loop year start = Some r \<Longrightarrow> year \<le> 292277024627"
proof (rule Year_loop.raw_induct [where P = "\<lambda>year start r. year \<le> 292277024627"])
  fix f :: "int \<Rightarrow> Time \<Rightarrow> (Time \<times> Time) option" and year start r
  assume IH: "\<And>year start r. f year start = Some r \<Longrightarrow> year \<le> 292277024627"
    and step: "(let end = Year_end start in
         if year \<le> Time_Year end then Some (start, Add end (- Nanosecond)) else f year end) = Some r"
  show "year \<le> 292277024627"
  proof (cases "year \<le> Time_Year (Year_end start)")
    case True
    with Time_Year_Year_end [of start] show ?thesis by simp
  next
    case False
    with step have "f year (Year_end start) = Some r" by (simp add: Let_def)
    then show ?thesis by (rule IH)
  qed
qed

lemma Year_past_range: "292277024627 < y \<Longrightarrow> Year y = None"
proof (rule ccontr)
  assume y: "292277024627 < y" and "Year y \<noteq> None"
  then obtain r where "Year_loop y first = Some r" by (auto simp: Year_def)
  from Year_loop_bounded [OF this] y show False by simp
qed

lemma Quarter_past_range: "292277024627 < y \<Longrightarrow> Quarter y q = None"
  by (simp add: Quarter_def Year_past_range)

lemma Period_past_range: "292277024627 < y \<Longrightarrow> Period y p = None"
  by (simp add: Period_def Year_past_range)

section \<open>The claims about \<open>Year\<close>\<close>

text \<open>
  C3 as stated fails: 292277024627 is a fiscal year for which \<open>Year\<close> returns, and for
  the next one it never returns, so there is no start to compare its end with.
\<close>

theorem Year_after_the_last: "Year 292277024627 \<noteq> None \<and> Year 292277024628 = None"
  using Year_returns [of 292277024627] Year_past_range [of 292277024628] by auto

text \<open>
  C3, amended. For every fiscal year \<open>y\<close> from 2006 up to 292277024626, \<open>Year y\<close> and
  \<open>Year (y + 1)\<close> both return, and the end of the former plus one nanosecond is the start
  of the latter: consecutive fiscal years are contiguous, with no gap and no overlap.
\<close>

theorem Year_contiguous:
  assumes "2006 \<le> y" and "y \<le> 292277024626"
  shows "\<exists>s e s' e'. Year y = Some (s, e) \<and> Year (y + 1) = Some (s', e') \<and> Add e Nanosecond = s'"
proof -
  let ?k = "nat (y - 2006)"
  have k: "nat (y + 1 - 2006) = Suc ?k" using assms by simp
  have "?k \<le> 292277022621" using assms by simp
  then have r: "inRange (starts ?k)" by (rule inRange_starts)
  have "Year (y + 1) = Some (plainEnd (starts ?k), plainEnd (starts (Suc ?k)) - 1)"
    using Year_eq [of "y + 1"] assms k by simp
  moreover have "Year y = Some (starts ?k, plainEnd (starts ?k) - 1)"
    using Year_eq [of y] assms by simp
  ultimately show ?thesis
    using Add_end_forth [OF r] by (simp add: Nanosecond_def)
qed

theorem Year_contiguous_witness:
  "(2006::int) \<le> 2006 \<and> (2006::int) \<le> 292277024626 \<and>
   (\<exists>s e s' e'. Year 2006 = Some (s, e) \<and> Year (2006 + 1) = Some (s', e') \<and> Add e Nanosecond = s')"
  using Year_contiguous [of 2006] by simp

text \<open>
  C4 as stated fails: for the fiscal year 300000000000 \<open>Year\<close> never returns.
\<close>

theorem Year_300000000000: "Year 300000000000 = None"
  by (rule Year_past_range) simp

text \<open>
  C4, amended. For every fiscal year \<open>y\<close> from 2006 up to 292277024627, the span from the
  start of \<open>Year y\<close> to its end plus one nanosecond is exactly 364 or 371 days, and it is
  371 days if and only if the instant 364 days after the start falls on a day of the month
  before the 25th.
\<close>

theorem Year_length:
  assumes "2006 \<le> y" and "y \<le> 292277024627"
  shows "\<exists>s e. Year y = Some (s, e) \<and>
     (Sub (Add e Nanosecond) s = 364 * Day \<or> Sub (Add e Nanosecond) s = 371 * Day) \<and>
     (Sub (Add e Nanosecond) s = 371 * Day \<longleftrightarrow> Time_Day (Add s (364 * Day)) < 25)"
proof -
  let ?s = "starts (nat (y - 2006))"
  have "nat (y - 2006) \<le> 292277022621" using assms by simp
  then have r: "inRange ?s" by (rule inRange_starts)
  have a: "Add (plainEnd ?s - 1) Nanosecond = plainEnd ?s"
    using Add_end_forth [OF r] by (simp add: Nanosecond_def)
  have b: "Add ?s (364 * Day) = ?s + 364 * Day" using Add_days [OF r, of 364] by simp
  have "Year y = Some (?s, plainEnd ?s - 1)" by (rule Year_eq [OF assms])
  moreover have "Sub (Add (plainEnd ?s - 1) Nanosecond) ?s = 364 * Day \<or>
      Sub (Add (plainEnd ?s - 1) Nanosecond) ?s = 371 * Day"
    unfolding a by (simp add: plainEnd_cases Sub_364 Sub_371)
  moreover have "Sub (Add (plainEnd ?s - 1) Nanosecond) ?s = 371 * Day \<longleftrightarrow>
      Time_Day (Add ?s (364 * Day)) < 25"
    unfolding a b using Day_neq by (simp add: plainEnd_cases Sub_364 Sub_371)
  ultimately show ?thesis by blast
qed

theorem Year_length_witness:
  "(2006::int) \<le> 2007 \<and> (2007::int) \<le> 292277024627 \<and> (\<exists>s e. Year 2007 = Some (s, e) \<and>
     (Sub (Add e Nanosecond) s = 364 * Day \<or> Sub (Add e Nanosecond) s = 371 * Day) \<and>
     (Sub (Add e Nanosecond) s = 371 * Day \<longleftrightarrow> Time_Day (Add s (364 * Day)) < 25))"
  using Year_length [of 2007] by simp

section \<open>\<open>Quarter\<close> and \<open>Period\<close> in closed form\<close>

lemma Year_shape:
  assumes "y \<le> 292277024627"
  shows "\<exists>s. inRange s \<and>
     (Year y = Some (s, s + 364 * Day - 1) \<or> Year y = Some (s, s + 371 * Day - 1))"
proof -
  from Year_returns [OF assms] obtain k
    where "k \<le> 292277022621" and "Year y = Some (starts k, plainEnd (starts k) - 1)" by blast
  then show ?thesis
    by (intro exI [of _ "starts k"]) (auto simp: plainEnd_cases inRange_starts)
qed

lemma moreThan_364: "moreThan364Days (Sub (s + 364 * Day - 1) s) = False"
  by (simp add: moreThan364Days_def Sub_def Day_val Hour_def minDuration_def maxDuration_def)

lemma moreThan_371: "moreThan364Days (Sub (s + 371 * Day - 1) s) = True"
  by (simp add: moreThan364Days_def Sub_def Day_val Hour_def minDuration_def maxDuration_def)

lemma quarter_range: "1 \<le> q \<Longrightarrow> q \<le> 4 \<Longrightarrow> q = 1 \<or> q = 2 \<or> q = 3 \<or> q = (4::int)"
  by arith

lemma period_range:
  "1 \<le> p \<Longrightarrow> p \<le> 12 \<Longrightarrow>
     p = 1 \<or> p = 2 \<or> p = 3 \<or> p = 4 \<or> p = 5 \<or> p = 6 \<or> p = 7 \<or> p = 8 \<or> p = 9 \<or> p = 10
       \<or> p = 11 \<or> p = (12::int)"
  by arith

lemma Quarter_364:
  assumes "Year y = Some (s, s + 364 * Day - 1)" and "inRange s" and "1 \<le> q" and "q \<le> 4"
  shows "Quarter y q =
     Some (s + [0, 91, 182, 273] ! nat (q - 1) * Day, s + [91, 182, 273, 364] ! nat (q - 1) * Day - 1)"
  using quarter_range [OF assms(3,4)] assms(1,2)
  by (auto simp: Quarter_def moreThan_364 Add_in_year Nanosecond_def)

lemma Quarter_371:
  assumes "Year y = Some (s, s + 371 * Day - 1)" and "inRange s" and "1 \<le> q" and "q \<le> 4"
  shows "Quarter y q =
     Some (s + [0, 98, 189, 280] ! nat (q - 1) * Day, s + [98, 189, 280, 371] ! nat (q - 1) * Day - 1)"
  using quarter_range [OF assms(3,4)] assms(1,2)
  by (auto simp: Quarter_def moreThan_371 Add_in_year Nanosecond_def go_div_def)

lemma Period_364:
  assumes "Year y = Some (s, s + 364 * Day - 1)" and "inRange s" and "1 \<le> p" and "p \<le> 12"
  shows "Period y p =
     Some (s + [0, 35, 63, 91, 126, 154, 182, 217, 245, 273, 308, 336] ! nat (p - 1) * Day,
           s + [35, 63, 91, 126, 154, 182, 217, 245, 273, 308, 336, 364] ! nat (p - 1) * Day - 1)"
  using period_range [OF assms(3,4)] assms(1,2)
  by (auto simp: Period_def moreThan_364 Add_in_year Nanosecond_def go_div_def)

lemma Period_371:
  assumes "Year y = Some (s, s + 371 * Day - 1)" and "inRange s" and "1 \<le> p" and "p \<le> 12"
  shows "Period y p =
     Some (s + [0, 35, 63, 98, 133, 161, 189, 224, 252, 280, 315, 343] ! nat (p - 1) * Day,
           s + [35, 63, 98, 133, 161, 189, 224, 252, 280, 315, 343, 371] ! nat (p - 1) * Day - 1)"
  using period_range [OF assms(3,4)] assms(1,2)
  by (auto simp: Period_def moreThan_371 Add_in_year Nanosecond_def go_div_def)

lemma Quarter_clamp: "Quarter y i = Quarter y (min (max i 1) 4)"
  by (cases "Year y") (auto simp: Quarter_def min_def max_def Let_def)

lemma Period_clamp: "Period y i = Period y (min (max i 1) 12)"
  by (cases "Year y") (auto simp: Period_def min_def max_def Let_def)

lemma Sub_days:
  "0 \<le> k \<Longrightarrow> k \<le> m \<Longrightarrow> m \<le> 371 \<Longrightarrow> Sub (a + m * Day) (a + k * Day) = (m - k) * Day"
proof -
  assume a: "0 \<le> k" "k \<le> m" "m \<le> 371"
  have "a + m * Day - (a + k * Day) = (m - k) * Day" by (simp add: algebra_simps)
  moreover have "0 \<le> (m - k) * Day" "(m - k) * Day \<le> maxDuration"
    using a by (simp_all add: Day_val maxDuration_def)
  ultimately show ?thesis by (simp add: Sub_def minDuration_def)
qed

lemma days_eq: "m * Day = n * Day \<longleftrightarrow> m = n"
  by (simp add: Day_val)

lemma Day_nz: "Day \<noteq> 0"
  by (simp add: Day_val)

lemma Sub_from: "0 \<le> m \<Longrightarrow> m \<le> 371 \<Longrightarrow> Sub (a + m * Day) a = m * Day"
  using Sub_days [of 0 m a] by simp

lemma days_long_from_start:
  assumes "inRange a" and "0 < m" and "m \<le> 371"
  shows "days_long (Some (a, a + m * Day - 1)) n \<longleftrightarrow> n = m"
proof -
  have "Add (a + m * Day - 1) Nanosecond = a + m * Day"
    using assms by (simp add: Add_in_year Nanosecond_def)
  moreover have "Sub (a + m * Day) a = m * Day" using assms by (simp add: Sub_from)
  ultimately have "Sub (Add (a + m * Day - 1) Nanosecond) a = m * Day" by (simp only:)
  then show ?thesis by (auto simp: days_long_def Day_nz)
qed

lemma days_long_between:
  assumes "inRange a" and "0 \<le> k" and "k < m" and "m \<le> 371"
  shows "days_long (Some (a + k * Day, a + m * Day - 1)) n \<longleftrightarrow> n = m - k"
proof -
  have "Add (a + m * Day - 1) Nanosecond = a + m * Day"
    using assms by (simp add: Add_in_year Nanosecond_def)
  moreover have "Sub (a + m * Day) (a + k * Day) = (m - k) * Day"
    using assms by (simp add: Sub_days)
  ultimately have "Sub (Add (a + m * Day - 1) Nanosecond) (a + k * Day) = (m - k) * Day"
    by (simp only:)
  then show ?thesis by (auto simp: days_long_def Day_nz)
qed

lemma Year_364_lengths:
  assumes Y: "Year y = Some (s, s + 364 * Day - 1)" and R: "inRange s"
  shows "days_long (Year y) n \<longleftrightarrow> n = 364"
    and "1 \<le> q \<Longrightarrow> q \<le> 4 \<Longrightarrow> days_long (Quarter y q) n \<longleftrightarrow> n = 91"
    and "1 \<le> p \<Longrightarrow> p \<le> 12 \<Longrightarrow> days_long (Period y p) n \<longleftrightarrow> n = (if p mod 3 = 1 then 35 else 28)"
proof -
  show "days_long (Year y) n \<longleftrightarrow> n = 364"
    using R by (simp add: Y days_long_from_start)
  show "days_long (Quarter y q) n \<longleftrightarrow> n = 91" if "1 \<le> q" "q \<le> 4"
    using quarter_range [OF that] Quarter_364 [OF Y R that]
    using R by (auto simp: days_long_from_start days_long_between)
  show "days_long (Period y p) n \<longleftrightarrow> n = (if p mod 3 = 1 then 35 else 28)" if "1 \<le> p" "p \<le> 12"
    using period_range [OF that] Period_364 [OF Y R that]
    using R by (auto simp: days_long_from_start days_long_between)
qed

lemma Year_371_lengths:
  assumes Y: "Year y = Some (s, s + 371 * Day - 1)" and R: "inRange s"
  shows "days_long (Year y) n \<longleftrightarrow> n = 371"
    and "1 \<le> q \<Longrightarrow> q \<le> 4 \<Longrightarrow> days_long (Quarter y q) n \<longleftrightarrow> n = (if q = 1 then 98 else 91)"
    and "1 \<le> p \<Longrightarrow> p \<le> 12 \<Longrightarrow>
           days_long (Period y p) n \<longleftrightarrow> n = (if p mod 3 = 1 \<or> p = 3 then 35 else 28)"
proof -
  show "days_long (Year y) n \<longleftrightarrow> n = 371"
    using R by (simp add: Y days_long_from_start)
  show "days_long (Quarter y q) n \<longleftrightarrow> n = (if q = 1 then 98 else 91)" if "1 \<le> q" "q \<le> 4"
    using quarter_range [OF that] Quarter_371 [OF Y R that]
    using R by (auto simp: days_long_from_start days_long_between)
  show "days_long (Period y p) n \<longleftrightarrow> n = (if p mod 3 = 1 \<or> p = 3 then 35 else 28)"
    if "1 \<le> p" "p \<le> 12"
    using period_range [OF that] Period_371 [OF Y R that]
    using R by (auto simp: days_long_from_start days_long_between)
qed

text \<open>
  C5 as stated fails: for the fiscal year 300000000000 \<open>Quarter\<close> never returns, so its
  second quarter is not 91 days long.
\<close>

theorem quarter_of_300000000000:
  "Quarter 300000000000 2 = None \<and> \<not> days_long (Quarter 300000000000 2) 91"
  by (simp add: Quarter_past_range days_long_def)

text \<open>
  C5, amended. For every fiscal year \<open>y\<close> from 2006 up to 292277024627, the year is 364
  or 371 days long, and
  these are equivalent: the year is 371 days long; \<open>Quarter y 1\<close> is 98 days long;
  \<open>Period y 3\<close> is 35 days long (it is 28 days long otherwise). The quarters 2 to 4 are
  91 days long each. In a year that is not 371 days long every quarter is 91 days long
  and the periods are 35, 28 and 28 days long in every quarter.
\<close>

theorem leap_week_placement:
  assumes "2006 \<le> y" and "y \<le> 292277024627"
  shows "(days_long (Year y) 364 \<or> days_long (Year y) 371) \<and>
    (days_long (Year y) 371 \<longleftrightarrow> days_long (Quarter y 1) 98) \<and>
    (days_long (Quarter y 1) 98 \<longleftrightarrow> days_long (Period y 3) 35) \<and>
    (days_long (Period y 3) 35 \<or> days_long (Period y 3) 28) \<and>
    (\<forall>q\<in>{2..4}. days_long (Quarter y q) 91) \<and>
    (\<not> days_long (Year y) 371 \<longrightarrow>
       (\<forall>q\<in>{1..4}. days_long (Quarter y q) 91) \<and>
       (\<forall>p\<in>{1..12}. days_long (Period y p) (if p mod 3 = 1 then 35 else 28)))"
proof -
  from Year_shape [OF assms(2)] obtain s
    where R: "inRange s"
      and D: "Year y = Some (s, s + 364 * Day - 1) \<or> Year y = Some (s, s + 371 * Day - 1)"
    by blast
  from D show ?thesis
  proof
    assume Y: "Year y = Some (s, s + 364 * Day - 1)"
    show ?thesis by (simp add: Year_364_lengths [OF Y R])
  next
    assume Y: "Year y = Some (s, s + 371 * Day - 1)"
    show ?thesis by (simp add: Year_371_lengths [OF Y R])
  qed
qed

lemma go_div_nonneg: "0 \<le> a \<Longrightarrow> 0 < b \<Longrightarrow> go_div a b = a div b"
  by (cases "a = 0") (simp_all add: go_div_def)

lemma go_div_days: "0 \<le> m \<Longrightarrow> go_div (m * Day) Day = m"
  by (simp add: go_div_nonneg Day_val)

lemma lengthDays_from_start:
  assumes "inRange a" and "0 < m" and "m \<le> 371"
  shows "lengthDays a (a + m * Day - 1) = m"
proof -
  have "Add (a + m * Day - 1) Nanosecond = a + m * Day"
    using assms by (simp add: Add_in_year Nanosecond_def)
  moreover have "Sub (a + m * Day) a = m * Day" using assms by (simp add: Sub_from)
  ultimately show ?thesis using assms by (simp add: lengthDays_def go_div_days)
qed

lemma lengthDays_between:
  assumes "inRange a" and "0 \<le> k" and "k < m" and "m \<le> 371"
  shows "lengthDays (a + k * Day) (a + m * Day - 1) = m - k"
proof -
  have "Add (a + m * Day - 1) Nanosecond = a + m * Day"
    using assms by (simp add: Add_in_year Nanosecond_def)
  moreover have "Sub (a + m * Day) (a + k * Day) = (m - k) * Day"
    using assms by (simp add: Sub_days)
  ultimately show ?thesis using assms by (simp add: lengthDays_def go_div_days)
qed

lemma ball_1_3: "(\<forall>q\<in>{1..3::int}. P q) \<longleftrightarrow> P 1 \<and> P 2 \<and> P 3"
proof -
  have "{1..3::int} = {1, 2, 3}" by auto
  then show ?thesis by simp
qed

lemma ball_1_4: "(\<forall>q\<in>{1..4::int}. P q) \<longleftrightarrow> P 1 \<and> P 2 \<and> P 3 \<and> P 4"
proof -
  have "{1..4::int} = {1, 2, 3, 4}" by auto
  then show ?thesis by simp
qed

lemma ball_1_11:
  "(\<forall>q\<in>{1..11::int}. P q) \<longleftrightarrow>
     P 1 \<and> P 2 \<and> P 3 \<and> P 4 \<and> P 5 \<and> P 6 \<and> P 7 \<and> P 8 \<and> P 9 \<and> P 10 \<and> P 11"
proof
  assume "\<forall>q\<in>{1..11}. P q"
  then show "P 1 \<and> P 2 \<and> P 3 \<and> P 4 \<and> P 5 \<and> P 6 \<and> P 7 \<and> P 8 \<and> P 9 \<and> P 10 \<and> P 11"
    by simp
next
  assume c: "P 1 \<and> P 2 \<and> P 3 \<and> P 4 \<and> P 5 \<and> P 6 \<and> P 7 \<and> P 8 \<and> P 9 \<and> P 10 \<and> P 11"
  show "\<forall>q\<in>{1..11}. P q"
  proof
    fix q :: int
    assume "q \<in> {1..11}"
    then have "1 \<le> q" "q \<le> 12" "q \<noteq> 12" by simp_all
    with period_range [of q] c show "P q" by blast
  qed
qed

lemma ball_1_12:
  "(\<forall>q\<in>{1..12::int}. P q) \<longleftrightarrow>
     P 1 \<and> P 2 \<and> P 3 \<and> P 4 \<and> P 5 \<and> P 6 \<and> P 7 \<and> P 8 \<and> P 9 \<and> P 10 \<and> P 11 \<and> P 12"
proof
  assume "\<forall>q\<in>{1..12}. P q"
  then show "P 1 \<and> P 2 \<and> P 3 \<and> P 4 \<and> P 5 \<and> P 6 \<and> P 7 \<and> P 8 \<and> P 9 \<and> P 10 \<and> P 11 \<and> P 12"
    by simp
next
  assume c: "P 1 \<and> P 2 \<and> P 3 \<and> P 4 \<and> P 5 \<and> P 6 \<and> P 7 \<and> P 8 \<and> P 9 \<and> P 10 \<and> P 11 \<and> P 12"
  show "\<forall>q\<in>{1..12}. P q"
  proof
    fix q :: int
    assume "q \<in> {1..12}"
    then have "1 \<le> q" "q \<le> 12" by simp_all
    with period_range [of q] c show "P q" by blast
  qed
qed

lemma tile_364:
  assumes Y: "Year y = Some (s, s + 364 * Day - 1)" and R: "inRange s"
  defines "qs \<equiv> \<lambda>q. s + [0, 91, 182, 273] ! nat (q - 1) * Day"
    and "qe \<equiv> \<lambda>q. s + [91, 182, 273, 364] ! nat (q - 1) * Day - 1"
    and "ps \<equiv> \<lambda>p. s + [0, 35, 63, 91, 126, 154, 182, 217, 245, 273, 308, 336] ! nat (p - 1) * Day"
    and "pe \<equiv> \<lambda>p. s + [35, 63, 91, 126, 154, 182, 217, 245, 273, 308, 336, 364] ! nat (p - 1) * Day - 1"
  shows "(\<forall>q\<in>{1..4}. Quarter y q = Some (qs q, qe q))"
    and "(\<forall>p\<in>{1..12}. Period y p = Some (ps p, pe p))"
    and "lengthDays (qs 1) (qe 1) + lengthDays (qs 2) (qe 2) + lengthDays (qs 3) (qe 3)
           + lengthDays (qs 4) (qe 4) = lengthDays s (s + 364 * Day - 1)"
    and "qs 1 = s" and "qe 4 = s + 364 * Day - 1"
    and "(\<forall>q\<in>{1..3}. Add (qe q) Nanosecond = qs (q + 1))"
    and "(\<forall>q\<in>{1..4}.
           lengthDays (ps (3 * (q - 1) + 1)) (pe (3 * (q - 1) + 1))
             + lengthDays (ps (3 * (q - 1) + 2)) (pe (3 * (q - 1) + 2))
             + lengthDays (ps (3 * q)) (pe (3 * q)) = lengthDays (qs q) (qe q)
           \<and> ps (3 * (q - 1) + 1) = qs q \<and> pe (3 * q) = qe q)"
    and "(\<forall>p\<in>{1..11}. Add (pe p) Nanosecond = ps (p + 1))"
proof -
  show "\<forall>q\<in>{1..4}. Quarter y q = Some (qs q, qe q)"
    unfolding qs_def qe_def using Quarter_364 [OF Y R] by simp
  show "\<forall>p\<in>{1..12}. Period y p = Some (ps p, pe p)"
    unfolding ps_def pe_def using Period_364 [OF Y R] by simp
  show "lengthDays (qs 1) (qe 1) + lengthDays (qs 2) (qe 2) + lengthDays (qs 3) (qe 3)
           + lengthDays (qs 4) (qe 4) = lengthDays s (s + 364 * Day - 1)"
    using R by (simp add: qs_def qe_def lengthDays_from_start lengthDays_between)
  show "qs 1 = s" by (simp add: qs_def)
  show "qe 4 = s + 364 * Day - 1" by (simp add: qe_def)
  show "\<forall>q\<in>{1..3}. Add (qe q) Nanosecond = qs (q + 1)"
    using R by (simp add: ball_1_3 qs_def qe_def Add_in_year Nanosecond_def)
  show "\<forall>q\<in>{1..4}.
           lengthDays (ps (3 * (q - 1) + 1)) (pe (3 * (q - 1) + 1))
             + lengthDays (ps (3 * (q - 1) + 2)) (pe (3 * (q - 1) + 2))
             + lengthDays (ps (3 * q)) (pe (3 * q)) = lengthDays (qs q) (qe q)
           \<and> ps (3 * (q - 1) + 1) = qs q \<and> pe (3 * q) = qe q"
    using R by (simp add: ball_1_4 qs_def qe_def ps_def pe_def lengthDays_from_start lengthDays_between)
  show "\<forall>p\<in>{1..11}. Add (pe p) Nanosecond = ps (p + 1)"
    using R by (simp add: ball_1_11 ps_def pe_def Add_in_year Nanosecond_def)
qed

lemma tile_371:
  assumes Y: "Year y = Some (s, s + 371 * Day - 1)" and R: "inRange s"
  defines "qs \<equiv> \<lambda>q. s + [0, 98, 189, 280] ! nat (q - 1) * Day"
    and "qe \<equiv> \<lambda>q. s + [98, 189, 280, 371] ! nat (q - 1) * Day - 1"
    and "ps \<equiv> \<lambda>p. s + [0, 35, 63, 98, 133, 161, 189, 224, 252, 280, 315, 343] ! nat (p - 1) * Day"
    and "pe \<equiv> \<lambda>p. s + [35, 63, 98, 133, 161, 189, 224, 252, 280, 315, 343, 371] ! nat (p - 1) * Day - 1"
  shows "(\<forall>q\<in>{1..4}. Quarter y q = Some (qs q, qe q))"
    and "(\<forall>p\<in>{1..12}. Period y p = Some (ps p, pe p))"
    and "lengthDays (qs 1) (qe 1) + lengthDays (qs 2) (qe 2) + lengthDays (qs 3) (qe 3)
           + lengthDays (qs 4) (qe 4) = lengthDays s (s + 371 * Day - 1)"
    and "qs 1 = s" and "qe 4 = s + 371 * Day - 1"
    and "(\<forall>q\<in>{1..3}. Add (qe q) Nanosecond = qs (q + 1))"
    and "(\<forall>q\<in>{1..4}.
           lengthDays (ps (3 * (q - 1) + 1)) (pe (3 * (q - 1) + 1))
             + lengthDays (ps (3 * (q - 1) + 2)) (pe (3 * (q - 1) + 2))
             + lengthDays (ps (3 * q)) (pe (3 * q)) = lengthDays (qs q) (qe q)
           \<and> ps (3 * (q - 1) + 1) = qs q \<and> pe (3 * q) = qe q)"
    and "(\<forall>p\<in>{1..11}. Add (pe p) Nanosecond = ps (p + 1))"
proof -
  show "\<forall>q\<in>{1..4}. Quarter y q = Some (qs q, qe q)"
    unfolding qs_def qe_def using Quarter_371 [OF Y R] by simp
  show "\<forall>p\<in>{1..12}. Period y p = Some (ps p, pe p)"
    unfolding ps_def pe_def using Period_371 [OF Y R] by simp
  show "lengthDays (qs 1) (qe 1) + lengthDays (qs 2) (qe 2) + lengthDays (qs 3) (qe 3)
           + lengthDays (qs 4) (qe 4) = lengthDays s (s + 371 * Day - 1)"
    using R by (simp add: qs_def qe_def lengthDays_from_start lengthDays_between)
  show "qs 1 = s" by (simp add: qs_def)
  show "qe 4 = s + 371 * Day - 1" by (simp add: qe_def)
  show "\<forall>q\<in>{1..3}. Add (qe q) Nanosecond = qs (q + 1)"
    using R by (simp add: ball_1_3 qs_def qe_def Add_in_year Nanosecond_def)
  show "\<forall>q\<in>{1..4}.
           lengthDays (ps (3 * (q - 1) + 1)) (pe (3 * (q - 1) + 1))
             + lengthDays (ps (3 * (q - 1) + 2)) (pe (3 * (q - 1) + 2))
             + lengthDays (ps (3 * q)) (pe (3 * q)) = lengthDays (qs q) (qe q)
           \<and> ps (3 * (q - 1) + 1) = qs q \<and> pe (3 * q) = qe q"
    using R by (simp add: ball_1_4 qs_def qe_def ps_def pe_def lengthDays_from_start lengthDays_between)
  show "\<forall>p\<in>{1..11}. Add (pe p) Nanosecond = ps (p + 1)"
    using R by (simp add: ball_1_11 ps_def pe_def Add_in_year Nanosecond_def)
qed

text \<open>
  C6 as stated fails: for the fiscal year 292277024628 neither \<open>Year\<close> nor \<open>Quarter\<close>
  nor \<open>Period\<close> returns, so there are no ranges that partition it.
\<close>

theorem ranges_of_292277024628:
  "Year 292277024628 = None \<and> Quarter 292277024628 1 = None \<and> Period 292277024628 12 = None"
  by (simp add: Year_past_range Quarter_past_range Period_past_range)

text \<open>
  C6, amended. For every fiscal year \<open>y\<close> from 2006 up to 292277024627, the four quarters
  partition the year: their
  lengths in days add up to the length of the year, the first quarter starts where the
  year starts, the fourth ends where the year ends, and each of the quarters 1 to 3 ends
  one nanosecond before the next one starts. The twelve periods partition the quarters:
  the lengths of the three periods of a quarter add up to the length of the quarter, the
  first of them starts where the quarter starts, the third ends where the quarter ends,
  and each of the periods 1 to 11 ends one nanosecond before the next one starts.
\<close>

theorem quarters_and_periods_tile:
  assumes "2006 \<le> y" and "y \<le> 292277024627"
  shows "\<exists>ys ye qs qe ps pe.
    Year y = Some (ys, ye) \<and>
    (\<forall>q\<in>{1..4}. Quarter y q = Some (qs q, qe q)) \<and>
    (\<forall>p\<in>{1..12}. Period y p = Some (ps p, pe p)) \<and>
    lengthDays (qs 1) (qe 1) + lengthDays (qs 2) (qe 2) + lengthDays (qs 3) (qe 3)
      + lengthDays (qs 4) (qe 4) = lengthDays ys ye \<and>
    qs 1 = ys \<and> qe 4 = ye \<and>
    (\<forall>q\<in>{1..3}. Add (qe q) Nanosecond = qs (q + 1)) \<and>
    (\<forall>q\<in>{1..4}.
       lengthDays (ps (3 * (q - 1) + 1)) (pe (3 * (q - 1) + 1))
         + lengthDays (ps (3 * (q - 1) + 2)) (pe (3 * (q - 1) + 2))
         + lengthDays (ps (3 * q)) (pe (3 * q)) = lengthDays (qs q) (qe q)
       \<and> ps (3 * (q - 1) + 1) = qs q \<and> pe (3 * q) = qe q) \<and>
    (\<forall>p\<in>{1..11}. Add (pe p) Nanosecond = ps (p + 1))"
proof -
  from Year_shape [OF assms(2)] obtain s
    where R: "inRange s"
      and D: "Year y = Some (s, s + 364 * Day - 1) \<or> Year y = Some (s, s + 371 * Day - 1)"
    by blast
  from D show ?thesis
  proof
    assume Y: "Year y = Some (s, s + 364 * Day - 1)"
    show ?thesis
      apply (rule exI [of _ s])
      apply (rule exI [of _ "s + 364 * Day - 1"])
      apply (rule exI [of _ "\<lambda>q. s + [0, 91, 182, 273] ! nat (q - 1) * Day"])
      apply (rule exI [of _ "\<lambda>q. s + [91, 182, 273, 364] ! nat (q - 1) * Day - 1"])
      apply (rule exI [of _ "\<lambda>p. s + [0, 35, 63, 91, 126, 154, 182, 217, 245, 273, 308, 336] ! nat (p - 1) * Day"])
      apply (rule exI [of _ "\<lambda>p. s + [35, 63, 91, 126, 154, 182, 217, 245, 273, 308, 336, 364] ! nat (p - 1) * Day - 1"])
      apply (intro conjI Y tile_364 [OF Y R])
      done
  next
    assume Y: "Year y = Some (s, s + 371 * Day - 1)"
    show ?thesis
      apply (rule exI [of _ s])
      apply (rule exI [of _ "s + 371 * Day - 1"])
      apply (rule exI [of _ "\<lambda>q. s + [0, 98, 189, 280] ! nat (q - 1) * Day"])
      apply (rule exI [of _ "\<lambda>q. s + [98, 189, 280, 371] ! nat (q - 1) * Day - 1"])
      apply (rule exI [of _ "\<lambda>p. s + [0, 35, 63, 98, 133, 161, 189, 224, 252, 280, 315, 343] ! nat (p - 1) * Day"])
      apply (rule exI [of _ "\<lambda>p. s + [35, 63, 98, 133, 161, 189, 224, 252, 280, 315, 343, 371] ! nat (p - 1) * Day - 1"])
      apply (intro conjI Y tile_371 [OF Y R])
      done
  qed
qed

theorem quarters_and_periods_tile_witness:
  "(2006::int) \<le> 2006 \<and> (2006::int) \<le> 292277024627 \<and> (\<exists>ys ye qs qe ps pe.
    Year 2006 = Some (ys, ye) \<and>
    (\<forall>q\<in>{1..4}. Quarter 2006 q = Some (qs q, qe q)) \<and>
    (\<forall>p\<in>{1..12}. Period 2006 p = Some (ps p, pe p)) \<and>
    lengthDays (qs 1) (qe 1) + lengthDays (qs 2) (qe 2) + lengthDays (qs 3) (qe 3)
      + lengthDays (qs 4) (qe 4) = lengthDays ys ye \<and>
    qs 1 = ys \<and> qe 4 = ye \<and>
    (\<forall>q\<in>{1..3}. Add (qe q) Nanosecond = qs (q + 1)) \<and>
    (\<forall>q\<in>{1..4}.
       lengthDays (ps (3 * (q - 1) + 1)) (pe (3 * (q - 1) + 1))
         + lengthDays (ps (3 * (q - 1) + 2)) (pe (3 * (q - 1) + 2))
         + lengthDays (ps (3 * q)) (pe (3 * q)) = lengthDays (qs q) (qe q)
       \<and> ps (3 * (q - 1) + 1) = qs q \<and> pe (3 * q) = qe q) \<and>
    (\<forall>p\<in>{1..11}. Add (pe p) Nanosecond = ps (p + 1)))"
  using quarters_and_periods_tile [of 2006] by simp

text \<open>
  C7 as stated fails: for the largest year number a 64-bit \<open>int\<close> holds neither
  \<open>Quarter\<close> nor \<open>Period\<close> returns a result, whatever the index.
\<close>

theorem clamped_of_max_int:
  "Quarter 9223372036854775807 5 = None \<and> Period 9223372036854775807 13 = None"
  by (simp add: Quarter_past_range Period_past_range)

text \<open>
  C7, amended. For every fiscal year \<open>y\<close> from 2006 up to 292277024627 and every integer
  index \<open>i\<close>, \<open>Quarter y i\<close> returns what \<open>Quarter y (min (max i 1) 4)\<close> returns and
  \<open>Period y i\<close> returns what \<open>Period y (min (max i 1) 12)\<close> returns, and both return a
  range: an index out of range is clamped to the nearest bound and no error is raised.
  (For a later year the two calls still behave alike: neither returns.)
\<close>

theorem index_clamped:
  "Quarter y i = Quarter y (min (max i 1) 4) \<and> Period y i = Period y (min (max i 1) 12) \<and>
   (2006 \<le> y \<and> y \<le> 292277024627 \<longrightarrow> Quarter y i \<noteq> None \<and> Period y i \<noteq> None)"
proof -
  have "Quarter y i \<noteq> None \<and> Period y i \<noteq> None" if "y \<le> 292277024627"
  proof -
    from Year_shape [OF that] obtain r where "Year y = Some r" by blast
    then show ?thesis by (simp add: Quarter_def Period_def Let_def split_beta)
  qed
  then show ?thesis using Quarter_clamp [of y i] Period_clamp [of y i] by simp
qed

theorem index_clamped_witness:
  "(2006::int) \<le> 2006 \<and> (2006::int) \<le> 292277024627 \<and>
   Quarter 2006 7 = Quarter 2006 (min (max 7 1) 4) \<and>
   Period 2006 7 = Period 2006 (min (max 7 1) 12) \<and>
   Quarter 2006 7 \<noteq> None \<and> Period 2006 7 \<noteq> None"
proof -
  have h: "(2006::int) \<le> 2006 \<and> (2006::int) \<le> 292277024627" by simp
  from h index_clamped [of 2006 7] show ?thesis by blast
qed

lemma Year_2006: "Year 2006 = Some (first, first + 371 * Day - 1)"
  using Year_low [of 2006] by (simp add: plainEnd_first)

text \<open>
  C8. The anchor is 2005-09-25 00:00:00 UTC, and 364 days later the day of the month is
  before the 25th. \<open>Year 2006\<close> returns the anchor and the anchor plus 371 days minus one
  nanosecond, a year of 53 weeks; \<open>Quarter 2006 1\<close> returns the anchor and the anchor plus
  98 days minus one nanosecond; \<open>Period 2006 1\<close> returns the anchor and the anchor plus 35
  days minus one nanosecond; \<open>Period 2006 3\<close> is 35 days long.
\<close>

theorem anchor_year:
  "first = Date 2005 9 25 0 0 0 0 \<and>
   Time_Year first = 2005 \<and> Time_Month first = 9 \<and> Time_Day first = 25 \<and>
   Time_Day (Add first (364 * Day)) < 25 \<and>
   Year 2006 = Some (first, Add (Add first (371 * Day)) (- Nanosecond)) \<and>
   Quarter 2006 1 = Some (first, Add (Add first (98 * Day)) (- Nanosecond)) \<and>
   Period 2006 1 = Some (first, Add (Add first (35 * Day)) (- Nanosecond)) \<and>
   Period 2006 3 = Some (Add first (63 * Day), Add (Add first (98 * Day)) (- Nanosecond)) \<and>
   days_long (Period 2006 3) 35"
proof -
  note R = inRange_first
  have "Time_Year first = 2005" "Time_Month first = 9" "Time_Day first = 25"
    "Time_Day (Add first (364 * Day)) < 25"
    by code_simp+
  moreover have "Quarter 2006 1 = Some (first, Add (Add first (98 * Day)) (- Nanosecond))"
    using Quarter_371 [OF Year_2006 R, of 1] R by (simp add: Add_in_year Nanosecond_def)
  moreover have "Period 2006 1 = Some (first, Add (Add first (35 * Day)) (- Nanosecond))"
    using Period_371 [OF Year_2006 R, of 1] R by (simp add: Add_in_year Nanosecond_def)
  moreover have "Period 2006 3 = Some (Add first (63 * Day), Add (Add first (98 * Day)) (- Nanosecond))"
    using Period_371 [OF Year_2006 R, of 3] R by (simp add: Add_in_year Nanosecond_def)
  moreover have "days_long (Period 2006 3) 35"
    using Year_371_lengths(3) [OF Year_2006 R, of 3 35] by simp
  moreover have "Year 2006 = Some (first, Add (Add first (371 * Day)) (- Nanosecond))"
    using Year_2006 R by (simp add: Add_in_year Nanosecond_def)
  moreover have "first = Date 2005 9 25 0 0 0 0" by (simp add: first_def)
  ultimately show ?thesis by blast
qed

text \<open>
  C9 as stated fails: \<open>Year\<close> does return for a year below the anchor year, for
  instance for 2005.
\<close>

theorem Year_2005_returns: "Year 2005 = Some (first, Add (Add first (371 * Day)) (- Nanosecond))"
  using Year_low [of 2005] inRange_first by (simp add: plainEnd_first Add_in_year Nanosecond_def)

text \<open>
  C9, amended. \<open>Year\<close> returns for every year number up to 292277024627, the last
  calendar year a \<open>time.Time\<close> holds, those below the anchor year included; and each pass
  through its loop, up to the pass for that year, increases the calendar year of the
  candidate end, by exactly one.
\<close>

theorem Year_terminates:
  assumes "y \<le> 292277024627" and "k < 292277022621"
  shows "(\<exists>r. Year y = Some r) \<and>
    Time_Year (Year_end (starts (Suc k))) = Time_Year (Year_end (starts k)) + 1"
proof -
  have "inRange (starts k)" "inRange (starts (Suc k))"
    using assms(2) by (intro inRange_starts; simp)+
  then have "Time_Year (Year_end (starts (Suc k))) = Time_Year (Year_end (starts k)) + 1"
    by (simp only: Year_end_plain year_ends)
  with Year_returns [OF assms(1)] show ?thesis by blast
qed

theorem Year_terminates_witness:
  "(2005::int) \<le> 292277024627 \<and> (0::nat) < 292277022621 \<and> (\<exists>r. Year 2005 = Some r) \<and>
    Time_Year (Year_end (starts (Suc 0))) = Time_Year (Year_end (starts 0)) + 1"
  using Year_terminates [of 2005 0] by simp

text \<open>
  C10. For every year number \<open>y\<close> up to 2006, however negative, the first candidate end
  already satisfies the exit condition of the loop, and \<open>Year y\<close> returns what
  \<open>Year 2006\<close> returns: the anchor and the anchor plus 371 days minus one nanosecond.
\<close>

theorem Year_below_anchor:
  assumes "y \<le> 2006"
  shows "y \<le> Time_Year (Year_end first) \<and>
    Year y = Some (first, Add (Year_end first) (- Nanosecond)) \<and>
    Year y = Some (first, Add (Add first (371 * Day)) (- Nanosecond)) \<and>
    Year y = Year 2006"
proof -
  note R = inRange_first
  have e: "Year_end first = first + 371 * Day"
    using Year_end_plain [OF R] by (simp add: plainEnd_first)
  have "Time_Year (Year_end first) = 2006" using year_ends [of 0] by (simp add: e plainEnd_first)
  moreover have "Add (Add first (371 * Day)) (- Nanosecond) = first + 371 * Day - 1"
    using R by (simp add: Add_in_year Nanosecond_def)
  ultimately show ?thesis
    using assms Year_low [OF assms] Year_low [of 2006] R
    by (simp add: e plainEnd_first Add_in_year Nanosecond_def)
qed

theorem Year_below_anchor_witness:
  "(- 1000000 :: int) \<le> 2006 \<and> - 1000000 \<le> Time_Year (Year_end first) \<and>
    Year (- 1000000) = Some (first, Add (Year_end first) (- Nanosecond)) \<and>
    Year (- 1000000) = Some (first, Add (Add first (371 * Day)) (- Nanosecond)) \<and>
    Year (- 1000000) = Year 2006"
proof -
  have h: "(- 1000000 :: int) \<le> 2006" by simp
  from h Year_below_anchor [OF h] show ?thesis by blast
qed

theorem leap_week_placement_witness:
  "(2006::int) \<le> 2007 \<and> (2007::int) \<le> 292277024627 \<and> \<not> days_long (Year 2007) 371 \<and>
   (2::int) \<in> {1..4} \<and> days_long (Quarter 2007 2) 91 \<and>
   (5::int) \<in> {1..12} \<and> days_long (Period 2007 5) 28"
proof -
  have n: "\<not> days_long (Year 2007) 371" by code_simp
  from leap_week_placement [of 2007] n
  have "\<forall>q\<in>{1..4}. days_long (Quarter 2007 q) 91"
    and "\<forall>p\<in>{1..12}. days_long (Period 2007 p) (if p mod 3 = 1 then 35 else 28)"
    by simp_all
  then have "days_long (Quarter 2007 2) 91" "days_long (Period 2007 5) 28"
    by (simp_all add: ball_1_4 ball_1_12)
  with n show ?thesis by simp
qed

section \<open>Where the classifiers agree with the resolvers\<close>

text \<open>
  The classifiers take the calendar year of the date for the fiscal year, or the next one
  if the date lies after the end of that fiscal year. For a date of calendar year 2006 or
  later, in a fiscal year up to 292277024627, that is the fiscal year whose range holds the date.
\<close>

lemma Time_Year_first: "Time_Year first = 2005"
  by code_simp

lemma Time_Year_starts: "Time_Year (starts k) = 2005 + int k"
proof (cases k)
  case 0
  then show ?thesis by (simp add: Time_Year_first)
next
  case (Suc j)
  then show ?thesis using year_ends [of j] by simp
qed

text \<open>Which fiscal year the first lines of the three classifiers settle on.\<close>

lemma classify_year:
  assumes y: "2006 \<le> y" "y \<le> 292277024627" and Y: "Year y = Some (s, e)"
    and t: "s \<le> t" "t \<le> e" and c: "2006 \<le> Time_Year t"
  shows "\<exists>s0 e0. Year (Time_Year t) = Some (s0, e0) \<and>
     (if Before e0 t then (Time_Year t + 1, Add e0 Nanosecond) else (Time_Year t, s0)) = (y, s)"
proof -
  define k where "k = nat (y - 2006)"
  have yk: "y = 2006 + int k" using y by (simp add: k_def)
  have kb: "k \<le> 292277022621" using y by (simp add: k_def)
  from Year_eq [OF y] Y have s: "s = starts k" and e: "e = plainEnd (starts k) - 1"
    by (simp_all add: k_def)
  have "Time_Year s \<le> Time_Year t" using t(1) by (rule Time_Year_mono)
  then have lo: "y - 1 \<le> Time_Year t" by (simp add: s Time_Year_starts yk)
  have "Time_Year t \<le> Time_Year (plainEnd (starts k))"
    using t(2) by (intro Time_Year_mono) (simp add: e)
  then have hi: "Time_Year t \<le> y" by (simp add: year_ends yk)
  show ?thesis
  proof (cases "Time_Year t = y")
    case True
    then show ?thesis using Y t(2) by (simp add: Before_def)
  next
    case False
    with lo hi have ty: "Time_Year t = y - 1" by simp
    with c have "1 \<le> k" using yk by simp
    then obtain j where j: "k = Suc j" by (cases k) simp_all
    have "j \<le> 292277022621" using kb j by simp
    then have "inRange (starts j)" by (rule inRange_starts)
    from Add_end_forth [OF this] have a: "Add (starts k - 1) Nanosecond = starts k"
      by (simp add: j Nanosecond_def)
    have "2006 \<le> y - 1" "y - 1 \<le> 292277024627" using c ty y by simp_all
    from Year_eq [OF this] have "Year (y - 1) = Some (starts j, starts k - 1)"
      using yk j by simp
    then show ?thesis using t(1) s ty a by (simp add: Before_def)
  qed
qed

lemma YearForDate_agrees:
  assumes "2006 \<le> y" and "y \<le> 292277024627" and "Year y = Some (s, e)" and "s \<le> t"
    and "t \<le> e"
    and "2006 \<le> Time_Year t"
  shows "YearForDate t = Some y"
proof -
  from classify_year [OF assms] obtain s0 e0 where "Year (Time_Year t) = Some (s0, e0)"
    and "(if Before e0 t then (Time_Year t + 1, Add e0 Nanosecond) else (Time_Year t, s0)) = (y, s)"
    by blast
  then show ?thesis by (auto simp: YearForDate_def split: if_splits)
qed

text \<open>
  The seed of a scan is computed from the time since the start of the fiscal year, rounded
  to the nearest hour and cut to whole days.
\<close>

lemma Round_Hour:
  assumes "0 \<le> d" and "d \<le> 400 * Day"
  shows "Round d Hour =
     (if 2 * (d mod 3600000000000) < 3600000000000 then d - d mod 3600000000000
      else d + 3600000000000 - d mod 3600000000000)"
proof -
  have r: "go_rem d 3600000000000 = d mod 3600000000000"
    using assms(1) by (simp add: go_rem_def go_div_nonneg minus_mult_div_eq_mod)
  have "d mod 3600000000000 \<ge> 0" by simp
  then have m: "d + 3600000000000 - d mod 3600000000000 \<le> maxDuration"
    using assms(2) by (simp add: Day_val maxDuration_def)
  show ?thesis
    unfolding Round_def Hour_def r Let_def using assms(1) m by simp
qed

lemma wholeDays_Round_bounds:
  assumes "0 \<le> d" and "d \<le> 400 * Day"
  shows "0 \<le> wholeDays (Round d Hour)"
    and "d < n * Day \<Longrightarrow> wholeDays (Round d Hour) \<le> n"
    and "d + Hour div 2 < n * Day \<Longrightarrow> wholeDays (Round d Hour) < n"
proof -
  define h :: int where "h = d div 3600000000000"
  define r :: int where "r = d mod 3600000000000"
  have d: "d = 3600000000000 * h + r" and r: "0 \<le> r" "r < 3600000000000"
    by (simp_all add: h_def r_def)
  have h: "0 \<le> h" using assms(1) by (simp add: h_def pos_imp_zdiv_nonneg_iff)
  define R where "R = Round d Hour"
  have "R = d - r \<and> 2 * r < 3600000000000 \<or> R = d + 3600000000000 - r \<and> 3600000000000 \<le> 2 * r"
    unfolding R_def Round_Hour [OF assms] r_def by auto
  then have R: "R = 3600000000000 * h \<and> 2 * r < 3600000000000 \<or>
           R = 3600000000000 * (h + 1) \<and> 3600000000000 \<le> 2 * r"
    unfolding d by (auto simp: algebra_simps)
  then have R0: "0 \<le> R" using h by auto
  have w: "wholeDays R = R div 86400000000000"
    using R0 by (simp add: wholeDays_def Hour_def go_div_nonneg)
  show "0 \<le> wholeDays (Round d Hour)"
    unfolding R_def [symmetric] w using R0 by (simp add: pos_imp_zdiv_nonneg_iff)
  show "wholeDays (Round d Hour) \<le> n" if "d < n * Day"
  proof -
    from that d r have "3600000000000 * h < 3600000000000 * (24 * n)" by (simp add: Day_val)
    then have "h < 24 * n" by simp
    with R have "R \<le> 86400000000000 * n" by auto
    then have "R div 86400000000000 \<le> n" by arith
    then show ?thesis by (simp add: R_def [symmetric] w)
  qed
  show "wholeDays (Round d Hour) < n" if "d + Hour div 2 < n * Day"
  proof -
    from that have "d + 1800000000000 < 86400000000000 * n" by (simp add: Day_val Hour_def)
    with R d r have "R < 86400000000000 * n" by auto
    then have "R div 86400000000000 < n" by arith
    then show ?thesis by (simp add: R_def [symmetric] w)
  qed
qed

lemma QuarterForDate_loop_finds:
  assumes "Quarter y q = Some (s, e)" and "s \<le> t" and "t \<le> e" and "seed \<le> q"
    and "\<And>j. seed \<le> j \<Longrightarrow> j < q \<Longrightarrow> \<exists>sj ej. Quarter y j = Some (sj, ej) \<and> ej < t"
  shows "QuarterForDate_loop t y seed = Some (y, q)"
  using assms(4,5)
proof (induction "nat (q - seed)" arbitrary: seed)
  case 0
  then have "seed = q" by simp
  then show ?case using assms(1-3)
    by (subst QuarterForDate_loop.simps) (simp add: Before_def After_def)
next
  case (Suc n)
  then have lt: "seed < q" by simp
  from Suc.prems(2) [OF order_refl lt] obtain sj ej
    where "Quarter y seed = Some (sj, ej)" "ej < t" by blast
  then have "QuarterForDate_loop t y seed = QuarterForDate_loop t y (seed + 1)"
    by (subst QuarterForDate_loop.simps) (simp add: Before_def After_def)
  also have "\<dots> = Some (y, q)"
  proof (rule Suc.hyps(1))
    show "n = nat (q - (seed + 1))" using Suc.hyps(2) by simp
    show "seed + 1 \<le> q" using lt by simp
    show "\<exists>sj ej. Quarter y j = Some (sj, ej) \<and> ej < t" if "seed + 1 \<le> j" "j < q" for j
      using Suc.prems(2) [of j] that by simp
  qed
  finally show ?case .
qed

lemma PeriodForDate_loop_finds:
  assumes "Period y p = Some (s, e)" and "s \<le> t" and "t \<le> e" and "seed \<le> p"
    and "\<And>j. seed \<le> j \<Longrightarrow> j < p \<Longrightarrow> \<exists>sj ej. Period y j = Some (sj, ej) \<and> ej < t"
  shows "PeriodForDate_loop t y seed = Some (y, p)"
  using assms(4,5)
proof (induction "nat (p - seed)" arbitrary: seed)
  case 0
  then have "seed = p" by simp
  then show ?case using assms(1-3)
    by (subst PeriodForDate_loop.simps) (simp add: Before_def After_def)
next
  case (Suc n)
  then have lt: "seed < p" by simp
  from Suc.prems(2) [OF order_refl lt] obtain sj ej
    where "Period y seed = Some (sj, ej)" "ej < t" by blast
  then have "PeriodForDate_loop t y seed = PeriodForDate_loop t y (seed + 1)"
    by (subst PeriodForDate_loop.simps) (simp add: Before_def After_def)
  also have "\<dots> = Some (y, p)"
  proof (rule Suc.hyps(1))
    show "n = nat (p - (seed + 1))" using Suc.hyps(2) by simp
    show "seed + 1 \<le> p" using lt by simp
    show "\<exists>sj ej. Period y j = Some (sj, ej) \<and> ej < t" if "seed + 1 \<le> j" "j < p" for j
      using Suc.prems(2) [of j] that by simp
  qed
  finally show ?case .
qed

text \<open>
  A scan that starts at or below the index of the range that holds the date returns that
  index: the fiscal year, with its offsets in days \<open>offs\<close>, is cut into ranges that lie
  one after the other, and the seed is at most the index if the offset of the end of the
  range, cut to whole days after rounding, is below 98 (35) times the index.
\<close>

lemma QuarterForDate_by_offsets:
  assumes y: "2006 \<le> y" "y \<le> 292277024627" and c: "2006 \<le> Time_Year t"
    and Y: "Year y = Some (ys, ys + offs ! 4 * Day - 1)"
    and Q: "\<And>j. 1 \<le> j \<Longrightarrow> j \<le> 4 \<Longrightarrow>
              Quarter y j = Some (ys + offs ! nat (j - 1) * Day, ys + offs ! nat j * Day - 1)"
    and offs: "sorted offs" "length offs = 5" "offs ! 0 = 0" "offs ! 4 \<le> 400"
    and q: "1 \<le> q" "q \<le> 4"
    and t: "ys + offs ! nat (q - 1) * Day \<le> t" "t \<le> ys + offs ! nat q * Day - 1"
    and seed: "offs ! nat q < 98 * q \<or>
         offs ! nat q \<le> 98 * q \<and> t + Hour div 2 \<le> ys + offs ! nat q * Day - 1"
  shows "QuarterForDate t = Some (y, q)"
proof -
  have D: "0 < Day" by (simp add: Day_val)
  have mono: "offs ! i \<le> offs ! j" if "i \<le> j" "j \<le> 4" for i j
    using sorted_nth_mono [OF offs(1), of i j] that offs(2) by simp
  have lo: "0 \<le> offs ! nat (q - 1)" using mono [of 0 "nat (q - 1)"] q offs(3) by simp
  have hi: "offs ! nat q \<le> offs ! 4" using mono [of "nat q" 4] q by simp
  have t0: "ys \<le> t"
  proof -
    have "0 \<le> offs ! nat (q - 1) * Day" using lo D by simp
    with t(1) show ?thesis by linarith
  qed
  have t1: "t \<le> ys + offs ! 4 * Day - 1"
  proof -
    have "offs ! nat q * Day \<le> offs ! 4 * Day" using hi D by simp
    with t(2) show ?thesis by linarith
  qed
  from classify_year [OF y Y t0 t1 c] obtain s0 e0
    where Y0: "Year (Time_Year t) = Some (s0, e0)"
      and pick: "(if Before e0 t then (Time_Year t + 1, Add e0 Nanosecond) else (Time_Year t, s0))
         = (y, ys)"
    by blast
  have d0: "0 \<le> t - ys" using t0 by simp
  have d1: "t - ys \<le> 400 * Day"
  proof -
    have "offs ! 4 * Day \<le> 400 * Day" using offs(4) D by simp
    with t1 show ?thesis by linarith
  qed
  have sub: "Sub t ys = t - ys"
    using d0 d1 by (simp add: Sub_def Day_val minDuration_def maxDuration_def)
  define w where "w = wholeDays (Round (t - ys) Hour)"
  have w0: "0 \<le> w" unfolding w_def by (rule wholeDays_Round_bounds(1) [OF d0 d1])
  have "go_div w 98 = w div 98" using w0 by (simp add: go_div_nonneg)
  moreover have "0 \<le> w div 98" using w0 by (simp add: pos_imp_zdiv_nonneg_iff)
  moreover have "w < 98 * q"
    using seed
  proof
    assume a: "offs ! nat q < 98 * q"
    have "t - ys < offs ! nat q * Day" using t(2) by linarith
    from wholeDays_Round_bounds(2) [OF d0 d1 this] a show ?thesis by (simp add: w_def)
  next
    assume a: "offs ! nat q \<le> 98 * q \<and> t + Hour div 2 \<le> ys + offs ! nat q * Day - 1"
    then have "t - ys + Hour div 2 < offs ! nat q * Day" by linarith
    from wholeDays_Round_bounds(3) [OF d0 d1 this] a show ?thesis by (simp add: w_def)
  qed
  then have "w div 98 < q" by arith
  moreover note this
  ultimately have s1: "1 \<le> 1 + go_div w 98" and s2: "1 + go_div w 98 \<le> q" by simp_all
  have "QuarterForDate t = QuarterForDate_loop t y (1 + go_div w 98)"
    unfolding QuarterForDate_def Y0 using pick by (simp add: sub w_def)
  also have "\<dots> = Some (y, q)"
  proof (rule QuarterForDate_loop_finds [OF Q [OF q] t s2])
    fix j
    assume j: "1 + go_div w 98 \<le> j" "j < q"
    then have j1: "1 \<le> j" "j \<le> 4" using s1 q by simp_all
    have "offs ! nat j \<le> offs ! nat (q - 1)" using mono [of "nat j" "nat (q - 1)"] j j1 q by simp
    then have "offs ! nat j * Day \<le> offs ! nat (q - 1) * Day" using D by simp
    with t(1) have "ys + offs ! nat j * Day - 1 < t" by linarith
    with Q [OF j1] show "\<exists>sj ej. Quarter y j = Some (sj, ej) \<and> ej < t" by blast
  qed
  finally show ?thesis .
qed

lemma PeriodForDate_by_offsets:
  assumes y: "2006 \<le> y" "y \<le> 292277024627" and c: "2006 \<le> Time_Year t"
    and Y: "Year y = Some (ys, ys + offs ! 12 * Day - 1)"
    and Q: "\<And>j. 1 \<le> j \<Longrightarrow> j \<le> 12 \<Longrightarrow>
              Period y j = Some (ys + offs ! nat (j - 1) * Day, ys + offs ! nat j * Day - 1)"
    and offs: "sorted offs" "length offs = 13" "offs ! 0 = 0" "offs ! 12 \<le> 400"
    and q: "1 \<le> q" "q \<le> 12"
    and t: "ys + offs ! nat (q - 1) * Day \<le> t" "t \<le> ys + offs ! nat q * Day - 1"
    and seed: "offs ! nat q < 35 * q \<or>
         offs ! nat q \<le> 35 * q \<and> t + Hour div 2 \<le> ys + offs ! nat q * Day - 1"
  shows "PeriodForDate t = Some (y, q)"
proof -
  have D: "0 < Day" by (simp add: Day_val)
  have mono: "offs ! i \<le> offs ! j" if "i \<le> j" "j \<le> 12" for i j
    using sorted_nth_mono [OF offs(1), of i j] that offs(2) by simp
  have lo: "0 \<le> offs ! nat (q - 1)" using mono [of 0 "nat (q - 1)"] q offs(3) by simp
  have hi: "offs ! nat q \<le> offs ! 12" using mono [of "nat q" 12] q by simp
  have t0: "ys \<le> t"
  proof -
    have "0 \<le> offs ! nat (q - 1) * Day" using lo D by simp
    with t(1) show ?thesis by linarith
  qed
  have t1: "t \<le> ys + offs ! 12 * Day - 1"
  proof -
    have "offs ! nat q * Day \<le> offs ! 12 * Day" using hi D by simp
    with t(2) show ?thesis by linarith
  qed
  from classify_year [OF y Y t0 t1 c] obtain s0 e0
    where Y0: "Year (Time_Year t) = Some (s0, e0)"
      and pick: "(if Before e0 t then (Time_Year t + 1, Add e0 Nanosecond) else (Time_Year t, s0))
         = (y, ys)"
    by blast
  have d0: "0 \<le> t - ys" using t0 by simp
  have d1: "t - ys \<le> 400 * Day"
  proof -
    have "offs ! 12 * Day \<le> 400 * Day" using offs(4) D by simp
    with t1 show ?thesis by linarith
  qed
  have sub: "Sub t ys = t - ys"
    using d0 d1 by (simp add: Sub_def Day_val minDuration_def maxDuration_def)
  define w where "w = wholeDays (Round (t - ys) Hour)"
  have w0: "0 \<le> w" unfolding w_def by (rule wholeDays_Round_bounds(1) [OF d0 d1])
  have "go_div w 35 = w div 35" using w0 by (simp add: go_div_nonneg)
  moreover have "0 \<le> w div 35" using w0 by (simp add: pos_imp_zdiv_nonneg_iff)
  moreover have "w < 35 * q"
    using seed
  proof
    assume a: "offs ! nat q < 35 * q"
    have "t - ys < offs ! nat q * Day" using t(2) by linarith
    from wholeDays_Round_bounds(2) [OF d0 d1 this] a show ?thesis by (simp add: w_def)
  next
    assume a: "offs ! nat q \<le> 35 * q \<and> t + Hour div 2 \<le> ys + offs ! nat q * Day - 1"
    then have "t - ys + Hour div 2 < offs ! nat q * Day" by linarith
    from wholeDays_Round_bounds(3) [OF d0 d1 this] a show ?thesis by (simp add: w_def)
  qed
  then have "w div 35 < q" by arith
  moreover note this
  ultimately have s1: "1 \<le> 1 + go_div w 35" and s2: "1 + go_div w 35 \<le> q" by simp_all
  have "PeriodForDate t = PeriodForDate_loop t y (1 + go_div w 35)"
    unfolding PeriodForDate_def Y0 using pick by (simp add: sub w_def)
  also have "\<dots> = Some (y, q)"
  proof (rule PeriodForDate_loop_finds [OF Q [OF q] t s2])
    fix j
    assume j: "1 + go_div w 35 \<le> j" "j < q"
    then have j1: "1 \<le> j" "j \<le> 12" using s1 q by simp_all
    have "offs ! nat j \<le> offs ! nat (q - 1)" using mono [of "nat j" "nat (q - 1)"] j j1 q by simp
    then have "offs ! nat j * Day \<le> offs ! nat (q - 1) * Day" using D by simp
    with t(1) have "ys + offs ! nat j * Day - 1 < t" by linarith
    with Q [OF j1] show "\<exists>sj ej. Period y j = Some (sj, ej) \<and> ej < t" by blast
  qed
  finally show ?thesis .
qed

text \<open>
  So the three classifiers return the year and the index of the range that holds the
  date, for every date of calendar year 2006 or later in a fiscal year up to
  292277024627, except that the date must be at
  least half an hour before the end of quarter 1 of a year of 53 weeks (for
  \<open>QuarterForDate\<close>) and of period 1 of any year (for \<open>PeriodForDate\<close>).
\<close>

lemma QuarterForDate_agrees:
  assumes y: "2006 \<le> y" "y \<le> 292277024627" and q: "1 \<le> q" "q \<le> 4" and Q: "Quarter y q = Some (s, e)"
    and t: "s \<le> t" "t \<le> e" and c: "2006 \<le> Time_Year t"
    and x: "q = 1 \<Longrightarrow> days_long (Year y) 371 \<Longrightarrow> t + Hour div 2 \<le> e"
  shows "QuarterForDate t = Some (y, q)"
proof -
  from Year_shape [OF y(2)] obtain ys
    where R: "inRange ys"
      and D: "Year y = Some (ys, ys + 364 * Day - 1) \<or> Year y = Some (ys, ys + 371 * Day - 1)"
    by blast
  from D show ?thesis
  proof
    assume Y: "Year y = Some (ys, ys + 364 * Day - 1)"
    let ?o = "[0, 91, 182, 273, 364] :: int list"
    have all: "Quarter y j = Some (ys + ?o ! nat (j - 1) * Day, ys + ?o ! nat j * Day - 1)"
      if "1 \<le> j" "j \<le> 4" for j
      using quarter_range [OF that] Quarter_364 [OF Y R that] by auto
    from all [OF q] Q have se: "s = ys + ?o ! nat (q - 1) * Day" "e = ys + ?o ! nat q * Day - 1"
      by simp_all
    have "?o ! nat q < 98 * q" using quarter_range [OF q] by auto
    then show ?thesis
      using t by (intro QuarterForDate_by_offsets [where offs = ?o and ys = ys, OF y c _ all])
        (simp_all add: Y q se)
  next
    assume Y: "Year y = Some (ys, ys + 371 * Day - 1)"
    let ?o = "[0, 98, 189, 280, 371] :: int list"
    have all: "Quarter y j = Some (ys + ?o ! nat (j - 1) * Day, ys + ?o ! nat j * Day - 1)"
      if "1 \<le> j" "j \<le> 4" for j
      using quarter_range [OF that] Quarter_371 [OF Y R that] by auto
    from all [OF q] Q have se: "s = ys + ?o ! nat (q - 1) * Day" "e = ys + ?o ! nat q * Day - 1"
      by simp_all
    have "?o ! nat q < 98 * q \<or> ?o ! nat q \<le> 98 * q \<and> t + Hour div 2 \<le> ys + ?o ! nat q * Day - 1"
    proof (cases "q = 1")
      case True
      with x Year_371_lengths(1) [OF Y R, of 371] se(2) show ?thesis by simp
    next
      case False
      with quarter_range [OF q] show ?thesis by auto
    qed
    then show ?thesis
      using t by (intro QuarterForDate_by_offsets [where offs = ?o and ys = ys, OF y c _ all])
        (simp_all add: Y q se)
  qed
qed

lemma PeriodForDate_agrees:
  assumes y: "2006 \<le> y" "y \<le> 292277024627" and p: "1 \<le> p" "p \<le> 12" and P: "Period y p = Some (s, e)"
    and t: "s \<le> t" "t \<le> e" and c: "2006 \<le> Time_Year t"
    and x: "p = 1 \<Longrightarrow> t + Hour div 2 \<le> e"
  shows "PeriodForDate t = Some (y, p)"
proof -
  from Year_shape [OF y(2)] obtain ys
    where R: "inRange ys"
      and D: "Year y = Some (ys, ys + 364 * Day - 1) \<or> Year y = Some (ys, ys + 371 * Day - 1)"
    by blast
  from D show ?thesis
  proof
    assume Y: "Year y = Some (ys, ys + 364 * Day - 1)"
    let ?o = "[0, 35, 63, 91, 126, 154, 182, 217, 245, 273, 308, 336, 364] :: int list"
    have all: "Period y j = Some (ys + ?o ! nat (j - 1) * Day, ys + ?o ! nat j * Day - 1)"
      if "1 \<le> j" "j \<le> 12" for j
      using period_range [OF that] Period_364 [OF Y R that] by auto
    from all [OF p] P have se: "s = ys + ?o ! nat (p - 1) * Day" "e = ys + ?o ! nat p * Day - 1"
      by simp_all
    have "?o ! nat p < 35 * p \<or> ?o ! nat p \<le> 35 * p \<and> t + Hour div 2 \<le> ys + ?o ! nat p * Day - 1"
    proof (cases "p = 1")
      case True
      with x se(2) show ?thesis by simp
    next
      case False
      with period_range [OF p] show ?thesis by auto
    qed
    then show ?thesis
      using t by (intro PeriodForDate_by_offsets [where offs = ?o and ys = ys, OF y c _ all])
        (simp_all add: Y p se)
  next
    assume Y: "Year y = Some (ys, ys + 371 * Day - 1)"
    let ?o = "[0, 35, 63, 98, 133, 161, 189, 224, 252, 280, 315, 343, 371] :: int list"
    have all: "Period y j = Some (ys + ?o ! nat (j - 1) * Day, ys + ?o ! nat j * Day - 1)"
      if "1 \<le> j" "j \<le> 12" for j
      using period_range [OF that] Period_371 [OF Y R that] by auto
    from all [OF p] P have se: "s = ys + ?o ! nat (p - 1) * Day" "e = ys + ?o ! nat p * Day - 1"
      by simp_all
    have "?o ! nat p < 35 * p \<or> ?o ! nat p \<le> 35 * p \<and> t + Hour div 2 \<le> ys + ?o ! nat p * Day - 1"
    proof (cases "p = 1")
      case True
      with x se(2) show ?thesis by simp
    next
      case False
      with period_range [OF p] show ?thesis by auto
    qed
    then show ?thesis
      using t by (intro PeriodForDate_by_offsets [where offs = ?o and ys = ys, OF y c _ all])
        (simp_all add: Y p se)
  qed
qed

section \<open>The claims about \<open>YearForDate\<close>, \<open>QuarterForDate\<close> and \<open>PeriodForDate\<close>\<close>

lemma QuarterForDate_loop_diverges:
  assumes far: "\<And>q'. q \<le> q' \<Longrightarrow> \<exists>s e. Quarter year q' = Some (s, e) \<and> (Before date s \<or> After date e)"
  shows "QuarterForDate_loop date year q = None"
proof (rule ccontr)
  assume "QuarterForDate_loop date year q \<noteq> None"
  then obtain r where r: "QuarterForDate_loop date year q = Some r" by auto
  have "\<not> (\<forall>q'\<ge>q. \<exists>s e. Quarter year q' = Some (s, e) \<and> (Before date s \<or> After date e))"
  proof (rule QuarterForDate_loop.raw_induct
      [where P = "\<lambda>date year q r.
         \<not> (\<forall>q'\<ge>q. \<exists>s e. Quarter year q' = Some (s, e) \<and> (Before date s \<or> After date e))", OF _ r])
    fix f :: "Time \<Rightarrow> int \<Rightarrow> int \<Rightarrow> (int \<times> int) option" and date year quarter r
    assume IH: "\<And>date year quarter r. f date year quarter = Some r \<Longrightarrow>
        \<not> (\<forall>q'\<ge>quarter. \<exists>s e. Quarter year q' = Some (s, e) \<and> (Before date s \<or> After date e))"
      and step: "(case Quarter year quarter of None \<Rightarrow> None
         | Some (start, end) \<Rightarrow>
             if \<not> Before date start \<and> \<not> After date end then Some (year, quarter)
             else f date year (quarter + 1)) = Some r"
    show "\<not> (\<forall>q'\<ge>quarter. \<exists>s e. Quarter year q' = Some (s, e) \<and> (Before date s \<or> After date e))"
    proof
      assume all: "\<forall>q'\<ge>quarter. \<exists>s e. Quarter year q' = Some (s, e) \<and> (Before date s \<or> After date e)"
      then obtain s e where "Quarter year quarter = Some (s, e)" "Before date s \<or> After date e"
        by blast
      with step have "f date year (quarter + 1) = Some r" by auto
      from IH [OF this] all show False by auto
    qed
  qed
  with far show False by blast
qed

lemma PeriodForDate_loop_diverges:
  assumes far: "\<And>p'. p \<le> p' \<Longrightarrow> \<exists>s e. Period year p' = Some (s, e) \<and> (Before date s \<or> After date e)"
  shows "PeriodForDate_loop date year p = None"
proof (rule ccontr)
  assume "PeriodForDate_loop date year p \<noteq> None"
  then obtain r where r: "PeriodForDate_loop date year p = Some r" by auto
  have "\<not> (\<forall>p'\<ge>p. \<exists>s e. Period year p' = Some (s, e) \<and> (Before date s \<or> After date e))"
  proof (rule PeriodForDate_loop.raw_induct
      [where P = "\<lambda>date year p r.
         \<not> (\<forall>p'\<ge>p. \<exists>s e. Period year p' = Some (s, e) \<and> (Before date s \<or> After date e))", OF _ r])
    fix f :: "Time \<Rightarrow> int \<Rightarrow> int \<Rightarrow> (int \<times> int) option" and date year period r
    assume IH: "\<And>date year period r. f date year period = Some r \<Longrightarrow>
        \<not> (\<forall>p'\<ge>period. \<exists>s e. Period year p' = Some (s, e) \<and> (Before date s \<or> After date e))"
      and step: "(case Period year period of None \<Rightarrow> None
         | Some (start, end) \<Rightarrow>
             if \<not> Before date start \<and> \<not> After date end then Some (year, period)
             else f date year (period + 1)) = Some r"
    show "\<not> (\<forall>p'\<ge>period. \<exists>s e. Period year p' = Some (s, e) \<and> (Before date s \<or> After date e))"
    proof
      assume all: "\<forall>p'\<ge>period. \<exists>s e. Period year p' = Some (s, e) \<and> (Before date s \<or> After date e)"
      then obtain s e where "Period year period = Some (s, e)" "Before date s \<or> After date e"
        by blast
      with step have "f date year (period + 1) = Some r" by auto
      from IH [OF this] all show False by auto
    qed
  qed
  with far show False by blast
qed

lemma Year_2011: "Year 2011 = Some (63421056000000000000, 63452505599999999999)"
  by code_simp

lemma Year_2012: "Year 2012 = Some (63452505600000000000, 63452505600000000000 + 371 * Day - 1)"
  by code_simp

lemma Year_2007: "Year 2007 = Some (63295257600000000000, 63295257600000000000 + 364 * Day - 1)"
  by code_simp

lemma inRange_2012: "inRange 63452505600000000000"
  by (simp add: inRange_def Day_val maxTime_val)

lemma inRange_2007: "inRange 63295257600000000000"
  by (simp add: inRange_def Day_val maxTime_val)

lemma late_2011: "Date 2011 12 31 23 45 0 0 = 63460971900000000000"
  by code_simp

lemma late_2006: "Date 2006 11 4 23 45 0 0 = 63298280700000000000"
  by code_simp

lemma QuarterForDate_late_2011:
  "QuarterForDate 63460971900000000000 = QuarterForDate_loop 63460971900000000000 2012 2"
proof -
  have y: "Time_Year 63460971900000000000 = 2011" by code_simp
  have d: "1 + go_div (wholeDays (Round (Sub 63460971900000000000 (Add 63452505599999999999 Nanosecond)) Hour)) 98 = 2"
    by code_simp
  show ?thesis
    unfolding QuarterForDate_def y Year_2011 using d by (simp add: Before_def)
qed

lemma Quarter_2012_far:
  assumes "2 \<le> q"
  shows "\<exists>s e. Quarter 2012 q = Some (s, e) \<and> (Before 63460971900000000000 s \<or> After 63460971900000000000 e)"
proof -
  let ?c = "min (max q 1) 4"
  have c: "1 \<le> ?c" "?c \<le> 4" "?c \<noteq> 1" using assms by simp_all
  from quarter_range [OF c(1,2)] c(3) Quarter_371 [OF Year_2012 inRange_2012 c(1,2)]
  have "\<exists>s e. Quarter 2012 ?c = Some (s, e) \<and> Before 63460971900000000000 s"
    by (auto simp: Before_def Day_val)
  then show ?thesis by (subst Quarter_clamp) blast
qed

lemma PeriodForDate_late_2006:
  "PeriodForDate 63298280700000000000 = PeriodForDate_loop 63298280700000000000 2007 2"
proof -
  have y: "Time_Year 63298280700000000000 = 2006" by code_simp
  have d: "1 + go_div (wholeDays (Round (Sub 63298280700000000000 (Add (first + 371 * Day - 1) Nanosecond)) Hour)) 35 = 2"
    by code_simp
  have b: "Before (first + 371 * Day - 1) 63298280700000000000" by code_simp
  show ?thesis
    unfolding PeriodForDate_def y Year_2006 using d b by simp
qed

lemma Period_2007_far:
  assumes "2 \<le> p"
  shows "\<exists>s e. Period 2007 p = Some (s, e) \<and> (Before 63298280700000000000 s \<or> After 63298280700000000000 e)"
proof -
  let ?c = "min (max p 1) 12"
  have c: "1 \<le> ?c" "?c \<le> 12" "?c \<noteq> 1" using assms by simp_all
  from period_range [OF c(1,2)] c(3) Period_364 [OF Year_2007 inRange_2007 c(1,2)]
  have "\<exists>s e. Period 2007 ?c = Some (s, e) \<and> Before 63298280700000000000 s"
    by (auto simp: Before_def Day_val)
  then show ?thesis by (subst Period_clamp) blast
qed

text \<open>
  C2 says that for every instant at or after the anchor the seed of the scan of
  \<open>QuarterForDate\<close> and \<open>PeriodForDate\<close> is at most the index of the quarter or period
  that contains the date, so that the scan returns. The program misses that in the last
  half hour of the first quarter of a year of 53 weeks and in the last half hour of the
  first period of every year: \<open>Round(time.Hour)\<close> rounds the time since the start of the
  year up to 98 or 35 whole days, the seed is 2, and the scan, which only counts upwards,
  never returns. 2011-12-31 23:45 UTC lies in \<open>Quarter 2012 1\<close> and 2006-11-04 23:45 UTC
  in \<open>Period 2007 1\<close>; both scans start at index 2 and do not return.
\<close>

theorem scans_never_return:
  "Before first (Date 2011 12 31 23 45 0 0) \<and>
   Quarter 2012 1 = Some (Date 2011 9 25 0 0 0 0, Date 2011 12 31 23 59 59 999999999) \<and>
   \<not> Before (Date 2011 12 31 23 45 0 0) (Date 2011 9 25 0 0 0 0) \<and>
   \<not> After (Date 2011 12 31 23 45 0 0) (Date 2011 12 31 23 59 59 999999999) \<and>
   QuarterForDate (Date 2011 12 31 23 45 0 0)
     = QuarterForDate_loop (Date 2011 12 31 23 45 0 0) 2012 2 \<and>
   QuarterForDate (Date 2011 12 31 23 45 0 0) = None \<and>
   Before first (Date 2006 11 4 23 45 0 0) \<and>
   Period 2007 1 = Some (Date 2006 10 1 0 0 0 0, Date 2006 11 4 23 59 59 999999999) \<and>
   \<not> Before (Date 2006 11 4 23 45 0 0) (Date 2006 10 1 0 0 0 0) \<and>
   \<not> After (Date 2006 11 4 23 45 0 0) (Date 2006 11 4 23 59 59 999999999) \<and>
   PeriodForDate (Date 2006 11 4 23 45 0 0)
     = PeriodForDate_loop (Date 2006 11 4 23 45 0 0) 2007 2 \<and>
   PeriodForDate (Date 2006 11 4 23 45 0 0) = None"
proof -
  have q1: "Quarter 2012 1 = Some (Date 2011 9 25 0 0 0 0, Date 2011 12 31 23 59 59 999999999)"
  proof -
    have "Date 2011 9 25 0 0 0 0 = 63452505600000000000"
      "Date 2011 12 31 23 59 59 999999999 = 63452505600000000000 + 98 * Day - 1"
      by code_simp+
    then show ?thesis using Quarter_371 [OF Year_2012 inRange_2012, of 1] by simp
  qed
  have p1: "Period 2007 1 = Some (Date 2006 10 1 0 0 0 0, Date 2006 11 4 23 59 59 999999999)"
  proof -
    have "Date 2006 10 1 0 0 0 0 = 63295257600000000000"
      "Date 2006 11 4 23 59 59 999999999 = 63295257600000000000 + 35 * Day - 1"
      by code_simp+
    then show ?thesis using Period_364 [OF Year_2007 inRange_2007, of 1] by simp
  qed
  have inq: "Before first (Date 2011 12 31 23 45 0 0)"
    "\<not> Before (Date 2011 12 31 23 45 0 0) (Date 2011 9 25 0 0 0 0)"
    "\<not> After (Date 2011 12 31 23 45 0 0) (Date 2011 12 31 23 59 59 999999999)"
    by code_simp+
  have inp: "Before first (Date 2006 11 4 23 45 0 0)"
    "\<not> Before (Date 2006 11 4 23 45 0 0) (Date 2006 10 1 0 0 0 0)"
    "\<not> After (Date 2006 11 4 23 45 0 0) (Date 2006 11 4 23 59 59 999999999)"
    by code_simp+
  have qn: "QuarterForDate_loop (Date 2011 12 31 23 45 0 0) 2012 2 = None"
    unfolding late_2011 by (rule QuarterForDate_loop_diverges) (rule Quarter_2012_far)
  have pn: "PeriodForDate_loop (Date 2006 11 4 23 45 0 0) 2007 2 = None"
    unfolding late_2006 by (rule PeriodForDate_loop_diverges) (rule Period_2007_far)
  have qs: "QuarterForDate (Date 2011 12 31 23 45 0 0)
     = QuarterForDate_loop (Date 2011 12 31 23 45 0 0) 2012 2"
    unfolding late_2011 by (rule QuarterForDate_late_2011)
  have ps: "PeriodForDate (Date 2006 11 4 23 45 0 0)
     = PeriodForDate_loop (Date 2006 11 4 23 45 0 0) 2007 2"
    unfolding late_2006 by (rule PeriodForDate_late_2006)
  from qn qs have "QuarterForDate (Date 2011 12 31 23 45 0 0) = None" by simp
  moreover from pn ps have "PeriodForDate (Date 2006 11 4 23 45 0 0) = None" by simp
  ultimately show ?thesis using q1 p1 inq inp qs ps by blast
qed

lemma Year_2005: "Year 2005 = Some (first, first + 371 * Day - 1)"
  using Year_low [of 2005] by (simp add: plainEnd_first)

lemma early_2005: "Date 2005 10 5 0 0 0 0 = first + 10 * Day"
  by code_simp

lemma in_2005:
  "Time_Year (first + 10 * Day) = 2005"
  "\<not> Before (first + 371 * Day - 1) (first + 10 * Day)"
  "1 + go_div (wholeDays (Round (Sub (first + 10 * Day) first) Hour)) 98 = 1"
  "1 + go_div (wholeDays (Round (Sub (first + 10 * Day) first) Hour)) 35 = 1"
  by code_simp+

lemma YearForDate_2005: "YearForDate (first + 10 * Day) = Some 2005"
  unfolding YearForDate_def in_2005 Year_2005 using in_2005(2) by simp

lemma QuarterForDate_2005: "QuarterForDate (first + 10 * Day) = Some (2005, 1)"
proof -
  have "QuarterForDate (first + 10 * Day) = QuarterForDate_loop (first + 10 * Day) 2005 1"
    unfolding QuarterForDate_def in_2005 Year_2005 using in_2005(2,3) by simp
  also have "\<dots> = Some (2005, 1)"
    using Quarter_371 [OF Year_2005 inRange_first, of 1]
    by (subst QuarterForDate_loop.simps) (simp add: Before_def After_def Day_val)
  finally show ?thesis .
qed

lemma PeriodForDate_2005: "PeriodForDate (first + 10 * Day) = Some (2005, 1)"
proof -
  have "PeriodForDate (first + 10 * Day) = PeriodForDate_loop (first + 10 * Day) 2005 1"
    unfolding PeriodForDate_def in_2005 Year_2005 using in_2005(2,4) by simp
  also have "\<dots> = Some (2005, 1)"
    using Period_371 [OF Year_2005 inRange_first, of 1]
    by (subst PeriodForDate_loop.simps) (simp add: Before_def After_def Day_val)
  finally show ?thesis .
qed

text \<open>
  C1 says that \<open>YearForDate\<close>, \<open>QuarterForDate\<close> and \<open>PeriodForDate\<close> return the fiscal
  year, quarter and period whose range holds the instant. The program misses that for
  the instants of fiscal year 2006 that fall in calendar year 2005: 2005-10-05 00:00 UTC,
  ten days after the anchor, lies inside \<open>Year 2006\<close>, \<open>Quarter 2006 1\<close> and
  \<open>Period 2006 1\<close>, and the three functions return the year 2005 for it. (For the dates
  of calendar year 2006 and later see \<open>YearForDate_agrees\<close>, \<open>QuarterForDate_agrees\<close>
  and \<open>PeriodForDate_agrees\<close> above.)
\<close>

theorem classifiers_return_2005:
  "Date 2005 10 5 0 0 0 0 = Add first (10 * Day) \<and>
   Year 2006 = Some (first, Add (Add first (371 * Day)) (- Nanosecond)) \<and>
   Before first (Date 2005 10 5 0 0 0 0) \<and>
   Before (Date 2005 10 5 0 0 0 0) (Add (Add first (371 * Day)) (- Nanosecond)) \<and>
   Quarter 2006 1 = Some (first, Add (Add first (98 * Day)) (- Nanosecond)) \<and>
   Period 2006 1 = Some (first, Add (Add first (35 * Day)) (- Nanosecond)) \<and>
   Before (Date 2005 10 5 0 0 0 0) (Add (Add first (35 * Day)) (- Nanosecond)) \<and>
   YearForDate (Date 2005 10 5 0 0 0 0) = Some 2005 \<and>
   QuarterForDate (Date 2005 10 5 0 0 0 0) = Some (2005, 1) \<and>
   PeriodForDate (Date 2005 10 5 0 0 0 0) = Some (2005, 1)"
proof -
  note R = inRange_first
  have a: "Add (Add first (371 * Day)) (- Nanosecond) = first + 371 * Day - 1"
    "Add (Add first (98 * Day)) (- Nanosecond) = first + 98 * Day - 1"
    "Add (Add first (35 * Day)) (- Nanosecond) = first + 35 * Day - 1"
    "Add first (10 * Day) = first + 10 * Day"
    using R by (simp_all add: Add_in_year Nanosecond_def)
  have "Before first (first + 10 * Day)"
    "Before (first + 10 * Day) (first + 371 * Day - 1)"
    "Before (first + 10 * Day) (first + 35 * Day - 1)"
    by (simp_all add: Before_def Day_val)
  moreover have "Quarter 2006 1 = Some (first, first + 98 * Day - 1)"
    using Quarter_371 [OF Year_2006 R, of 1] by simp
  moreover have "Period 2006 1 = Some (first, first + 35 * Day - 1)"
    using Period_371 [OF Year_2006 R, of 1] by simp
  moreover note Year_2006 YearForDate_2005 QuarterForDate_2005 PeriodForDate_2005
  ultimately show ?thesis
    unfolding early_2005 a by blast
qed

end
